theory Spec2Isabelle
  imports Main "HOL-Library.Monad_Syntax"
begin

section \<open>JavaScript values and string primitives\<close>

text \<open>
  A JavaScript number, as far as this program computes with them, is \<^verbatim>\<open>NaN\<close> or an integer.
  Negative zero is identified with zero (the program cannot tell them apart), and the model
  is exact for integers below \<open>2 ^ 53\<close> in magnitude, which covers every number derived from
  an accepted address.  A BigInt is an \<open>int\<close>.  A string is a list of 8-bit characters.
\<close>

datatype jsnum = NaN | Num int

datatype js_error = IPRangeAddressError | SyntaxError | TypeError

text \<open>Arithmetic and comparison on numbers: \<^verbatim>\<open>NaN\<close> is contagious and compares false.\<close>

fun jsadd :: "jsnum \<Rightarrow> jsnum \<Rightarrow> jsnum" where
  "jsadd (Num a) (Num b) = Num (a + b)"
| "jsadd _ _ = NaN"

fun jsmul :: "jsnum \<Rightarrow> jsnum \<Rightarrow> jsnum" where
  "jsmul (Num a) (Num b) = Num (a * b)"
| "jsmul _ _ = NaN"

fun jsge :: "jsnum \<Rightarrow> jsnum \<Rightarrow> bool" where
  "jsge (Num a) (Num b) = (a \<ge> b)"
| "jsge _ _ = False"

fun jslt :: "jsnum \<Rightarrow> jsnum \<Rightarrow> bool" where
  "jslt (Num a) (Num b) = (a < b)"
| "jslt _ _ = False"

fun jsgt :: "jsnum \<Rightarrow> jsnum \<Rightarrow> bool" where
  "jsgt (Num a) (Num b) = (a > b)"
| "jsgt _ _ = False"

text \<open>
  JavaScript's \<^verbatim>\<open>Math.trunc(a / b)\<close> on numbers and \<^verbatim>\<open>a / b\<close> on BigInts both
  round towards zero.  On the numbers that occur here (integers below \<open>2 ^ 53\<close> divided
  by a power of two) the floating-point quotient is exact, so one definition serves both
  address families.
\<close>

definition tdiv :: "int \<Rightarrow> int \<Rightarrow> int" where
  "tdiv a b = sgn a * sgn b * (\<bar>a\<bar> div \<bar>b\<bar>)"

text \<open>\<^verbatim>\<open>ToUint32\<close> and \<^verbatim>\<open>ToInt32\<close>, applied by \<^verbatim>\<open>>>>\<close> and \<^verbatim>\<open>&\<close> to their operands.\<close>

fun toUint32 :: "jsnum \<Rightarrow> int" where
  "toUint32 NaN = 0"
| "toUint32 (Num n) = n mod 2 ^ 32"

definition toInt32 :: "jsnum \<Rightarrow> int" where
  "toInt32 x = (let u = toUint32 x in if 2 ^ 31 \<le> u then u - 2 ^ 32 else u)"

text \<open>\<^verbatim>\<open>x >>> k\<close> and \<^verbatim>\<open>x & y\<close> on numbers.\<close>

definition ushr :: "jsnum \<Rightarrow> nat \<Rightarrow> jsnum" where
  "ushr x k = Num (drop_bit k (toUint32 x))"

definition band :: "jsnum \<Rightarrow> jsnum \<Rightarrow> jsnum" where
  "band x y = Num (and (toInt32 x) (toInt32 y))"

text \<open>\<^verbatim>\<open>str.split(sep)\<close> for a one-character separator: never the empty list.\<close>

fun splitStr :: "char \<Rightarrow> string \<Rightarrow> string list" where
  "splitStr sep [] = [[]]"
| "splitStr sep (c # cs) =
     (if c = sep then [] # splitStr sep cs
      else (case splitStr sep cs of [] \<Rightarrow> [[c]] | piece # pieces \<Rightarrow> (c # piece) # pieces))"

text \<open>
  \<^verbatim>\<open>parseInt(str, 10)\<close>: leading white space is skipped, one sign is read, then the longest
  run of decimal digits; no digit at all gives \<^verbatim>\<open>NaN\<close>, and whatever follows the digits is
  ignored.
\<close>

definition isWhiteSpace :: "char \<Rightarrow> bool" where
  "isWhiteSpace c = ((of_char c :: nat) \<in> {9, 10, 11, 12, 13, 32, 160})"

definition isDigit :: "char \<Rightarrow> bool" where
  "isDigit c = (48 \<le> (of_char c :: nat) \<and> (of_char c :: nat) \<le> 57)"

definition digitVal :: "char \<Rightarrow> nat" where
  "digitVal c = of_char c - 48"

definition decimalValue :: "string \<Rightarrow> nat" where
  "decimalValue ds = foldl (\<lambda>v c. 10 * v + digitVal c) 0 ds"

definition parseInt10 :: "string \<Rightarrow> jsnum" where
  "parseInt10 str =
     (let s = dropWhile isWhiteSpace str;
          sign = (if s \<noteq> [] \<and> hd s = CHR ''-'' then - 1 else 1);
          s' = (if s \<noteq> [] \<and> (hd s = CHR ''+'' \<or> hd s = CHR ''-'') then tl s else s);
          z = takeWhile isDigit s'
      in if z = [] then NaN else Num (sign * int (decimalValue z)))"

text \<open>\<^verbatim>\<open>parseInt(array[k], 10)\<close>: a missing element is \<^verbatim>\<open>undefined\<close>, which parses to \<^verbatim>\<open>NaN\<close>.\<close>

definition parseIntAt :: "string list \<Rightarrow> nat \<Rightarrow> jsnum" where
  "parseIntAt array k = (if k < length array then parseInt10 (array ! k) else NaN)"

text \<open>
  \<^verbatim>\<open>BigInt('0x' + h)\<close>: at least one hexadecimal digit of either case, white space allowed
  only at the end; anything else throws \<^verbatim>\<open>SyntaxError\<close>.
\<close>

definition hexVal :: "char \<Rightarrow> nat option" where
  "hexVal c =
     (let n = (of_char c :: nat) in
      if 48 \<le> n \<and> n \<le> 57 then Some (n - 48)
      else if 97 \<le> n \<and> n \<le> 102 then Some (n - 87)
      else if 65 \<le> n \<and> n \<le> 70 then Some (n - 55)
      else None)"

definition hexValue :: "string \<Rightarrow> nat" where
  "hexValue ds = foldl (\<lambda>v c. 16 * v + (case hexVal c of Some d \<Rightarrow> d | None \<Rightarrow> 0)) 0 ds"

definition BigInt0x :: "string \<Rightarrow> js_error + int" where
  "BigInt0x h =
     (let ds = rev (dropWhile isWhiteSpace (rev h))
      in if ds \<noteq> [] \<and> list_all (\<lambda>c. hexVal c \<noteq> None) ds then Inr (int (hexValue ds))
         else Inl SyntaxError)"

text \<open>\<^verbatim>\<open>BigInt('0x' + array[k])\<close>: a missing element gives \<^verbatim>\<open>'0xundefined'\<close>, a syntax error.\<close>

definition BigIntAt :: "string list \<Rightarrow> nat \<Rightarrow> js_error + int" where
  "BigIntAt array k = (if k < length array then BigInt0x (array ! k) else Inl SyntaxError)"

definition bindE :: "'e + 'a \<Rightarrow> ('a \<Rightarrow> 'e + 'b) \<Rightarrow> 'e + 'b" where
  "bindE m f = (case m of Inl err \<Rightarrow> Inl err | Inr x \<Rightarrow> f x)"

text \<open>\<^verbatim>\<open>n.toString(10)\<close> and \<^verbatim>\<open>n.toString(16)\<close> of an integer.\<close>

definition digitChar :: "nat \<Rightarrow> char" where
  "digitChar d = (if d < 10 then char_of (48 + d) else char_of (87 + d))"

fun decimal :: "nat \<Rightarrow> string" where
  "decimal n = (if n < 10 then [digitChar n] else decimal (n div 10) @ [digitChar (n mod 10)])"

fun hexadecimal :: "nat \<Rightarrow> string" where
  "hexadecimal n =
     (if n < 16 then [digitChar n] else hexadecimal (n div 16) @ [digitChar (n mod 16)])"

declare decimal.simps [simp del]
declare hexadecimal.simps [simp del]

definition toString10 :: "int \<Rightarrow> string" where
  "toString10 n = (if n < 0 then CHR ''-'' # decimal (nat (- n)) else decimal (nat n))"

definition toString16 :: "int \<Rightarrow> string" where
  "toString16 n = (if n < 0 then CHR ''-'' # hexadecimal (nat (- n)) else hexadecimal (nat n))"

fun numToString10 :: "jsnum \<Rightarrow> string" where
  "numToString10 NaN = ''NaN''"
| "numToString10 (Num n) = toString10 n"

text \<open>\<^verbatim>\<open>str.slice(-k)\<close>: the last \<open>k\<close> characters, or all of a shorter string.\<close>

definition sliceLast :: "nat \<Rightarrow> string \<Rightarrow> string" where
  "sliceLast k str = drop (length str - k) str"

section \<open>The address functions of iprange.js\<close>

text \<open>\<^verbatim>\<open>_isIPv4Addr\<close>: four pieces, none of which parses to a number outside 0 to 255.\<close>

definition isIPv4Addr :: "string \<Rightarrow> bool" where
  "isIPv4Addr strIPv4Addr =
     (let arrayStrIPv4Octet = splitStr CHR ''.'' strIPv4Addr
      in if length arrayStrIPv4Octet \<noteq> 4 then False
         else list_all (\<lambda>strOctet.
                let intOctet = parseInt10 strOctet
                in \<not> (jsge intOctet (Num 256) \<or> jslt intOctet (Num 0)))
              arrayStrIPv4Octet)"

text \<open>
  \<^verbatim>\<open>_isIPv6Addr\<close>: eight pieces of four characters, each a digit or one of \<^verbatim>\<open>a\<close> to \<^verbatim>\<open>f\<close>
  (the comparisons of one-character strings compare their code units).
\<close>

definition isLowerHex :: "char \<Rightarrow> bool" where
  "isLowerHex c =
     ((of_char CHR ''0'' \<le> (of_char c :: nat) \<and> (of_char c :: nat) \<le> of_char CHR ''9'') \<or>
      (of_char CHR ''a'' \<le> (of_char c :: nat) \<and> (of_char c :: nat) \<le> of_char CHR ''f''))"

definition isIPv6Addr :: "string \<Rightarrow> bool" where
  "isIPv6Addr strIPv6Addr =
     (let arrayStrIPv6Hextet = splitStr CHR '':'' strIPv6Addr
      in if length arrayStrIPv6Hextet \<noteq> 8 then False
         else list_all (\<lambda>strHextet.
                case strHextet of
                  [c1, c2, c3, c4] \<Rightarrow> isLowerHex c1 \<and> isLowerHex c2 \<and> isLowerHex c3 \<and> isLowerHex c4
                | _ \<Rightarrow> False)
              arrayStrIPv6Hextet)"

definition toIPv4AddrInteger :: "string \<Rightarrow> jsnum" where
  "toIPv4AddrInteger strIPv4Addr =
     (let arrayIPv4Octet = splitStr CHR ''.'' strIPv4Addr
      in jsadd (jsadd (jsadd (jsmul (parseIntAt arrayIPv4Octet 0) (Num 16777216))
                             (jsmul (parseIntAt arrayIPv4Octet 1) (Num 65536)))
                      (jsmul (parseIntAt arrayIPv4Octet 2) (Num 256)))
               (parseIntAt arrayIPv4Octet 3))"

definition toIPv4AddrString :: "jsnum \<Rightarrow> string" where
  "toIPv4AddrString intIPv4AddrInteger =
     numToString10 (band (ushr intIPv4AddrInteger 24) (Num 255)) @ ''.'' @
     numToString10 (band (ushr intIPv4AddrInteger 16) (Num 255)) @ ''.'' @
     numToString10 (band (ushr intIPv4AddrInteger 8) (Num 255)) @ ''.'' @
     numToString10 (band intIPv4AddrInteger (Num 255))"

definition toIPv6AddrInteger :: "string \<Rightarrow> js_error + int" where
  "toIPv6AddrInteger strIPv6Addr =
     (let arrayIPv6Hextet = splitStr CHR '':'' strIPv6Addr
      in bindE (BigIntAt arrayIPv6Hextet 0) (\<lambda>h0.
         bindE (BigIntAt arrayIPv6Hextet 1) (\<lambda>h1.
         bindE (BigIntAt arrayIPv6Hextet 2) (\<lambda>h2.
         bindE (BigIntAt arrayIPv6Hextet 3) (\<lambda>h3.
         bindE (BigIntAt arrayIPv6Hextet 4) (\<lambda>h4.
         bindE (BigIntAt arrayIPv6Hextet 5) (\<lambda>h5.
         bindE (BigIntAt arrayIPv6Hextet 6) (\<lambda>h6.
         bindE (BigIntAt arrayIPv6Hextet 7) (\<lambda>h7.
           Inr (h0 * 5192296858534827628530496329220096 +
                h1 * 79228162514264337593543950336 +
                h2 * 1208925819614629174706176 +
                h3 * 18446744073709551616 +
                h4 * 281474976710656 +
                h5 * 4294967296 +
                h6 * 65536 +
                h7))))))))))"

definition hextetString :: "int \<Rightarrow> string" where
  "hextetString h = sliceLast 4 (''000'' @ toString16 (and h 65535))"

definition toIPv6AddrString :: "int \<Rightarrow> string" where
  "toIPv6AddrString bintIPv6AddrInteger =
     hextetString (tdiv bintIPv6AddrInteger 5192296858534827628530496329220096) @ '':'' @
     hextetString (tdiv bintIPv6AddrInteger 79228162514264337593543950336) @ '':'' @
     hextetString (tdiv bintIPv6AddrInteger 1208925819614629174706176) @ '':'' @
     hextetString (tdiv bintIPv6AddrInteger 18446744073709551616) @ '':'' @
     hextetString (tdiv bintIPv6AddrInteger 281474976710656) @ '':'' @
     hextetString (tdiv bintIPv6AddrInteger 4294967296) @ '':'' @
     hextetString (tdiv bintIPv6AddrInteger 65536) @ '':'' @
     hextetString bintIPv6AddrInteger"

section \<open>The range decomposer of iprange.js\<close>

text \<open>
  The inner \<^verbatim>\<open>while (intSegEnd <= intBlockEnd)\<close> loop of
  \<^verbatim>\<open>_makeIPv4SubnetFromRange\<close> and \<^verbatim>\<open>_makeIPv6SubnetFromRange\<close>.  It pushes one entry
  per segment and leaves \<^verbatim>\<open>intSegStart\<close> behind for the caller.  The entry pushed is
  \<open>emit segStart i\<close>; the two source functions differ only in how they render it.
\<close>

partial_function (option) pushSegments ::
  "(int \<Rightarrow> nat \<Rightarrow> 'a) \<Rightarrow> nat \<Rightarrow> int \<Rightarrow> int \<Rightarrow> int \<Rightarrow> int \<Rightarrow> 'a list \<Rightarrow> (int \<times> 'a list) option"
where
  "pushSegments emit i segSize blockEnd segStart segEnd arraySave =
     (if segEnd \<le> blockEnd
      then pushSegments emit i segSize blockEnd
             (segStart + segSize) ((segStart + segSize) + segSize - 1)
             (arraySave @ [emit segStart i])
      else Some (segStart, arraySave))"

text \<open>
  The \<^verbatim>\<open>for (let i=1; i<=width; ++i)\<close> loop with its two recursive calls.  The loop
  variables \<^verbatim>\<open>i\<close>, \<^verbatim>\<open>intSegSize\<close>, \<^verbatim>\<open>intStartAddr\<close>, \<^verbatim>\<open>intEndAddr\<close> and the array are
  passed along; \<open>width\<close> is the loop bound (32 or 128) and \<open>segSize0\<close> the initial
  segment size with which every recursive call starts again at \<open>i = 1\<close>.
  The result is \<open>None\<close> when the computation does not return.
\<close>

partial_function (option) subnetLoop ::
  "nat \<Rightarrow> int \<Rightarrow> (int \<Rightarrow> nat \<Rightarrow> 'a) \<Rightarrow> nat \<Rightarrow> int \<Rightarrow> int \<Rightarrow> int \<Rightarrow> 'a list \<Rightarrow> 'a list option"
where
  "subnetLoop width segSize0 emit i segSize startAddr endAddr arraySave =
     (if i \<le> width then
        (let blockStart = tdiv (startAddr + segSize - 1) segSize * segSize;
             blockEnd = tdiv (endAddr + 1) segSize * segSize - 1
         in if blockStart \<le> blockEnd then
              Option.bind
                (if startAddr < blockStart
                 then subnetLoop width segSize0 emit 1 segSize0 startAddr (blockStart - 1) arraySave
                 else Some arraySave)
                (\<lambda>a1. Option.bind
                   (pushSegments emit i segSize blockEnd blockStart (blockStart + segSize - 1) a1)
                   (\<lambda>(segStart, a2).
                      if blockEnd < endAddr
                      then Option.bind
                             (subnetLoop width segSize0 emit 1 segSize0 (blockEnd + 1) endAddr a2)
                             (\<lambda>a3. subnetLoop width segSize0 emit (i + 1) (tdiv segSize 2)
                                     segStart blockEnd a3)
                      else subnetLoop width segSize0 emit (i + 1) (tdiv segSize 2)
                             segStart endAddr a2))
            else subnetLoop width segSize0 emit (i + 1) (tdiv segSize 2) startAddr endAddr arraySave)
      else Some arraySave)"

declare pushSegments.simps [code]
declare subnetLoop.simps [code]

text \<open>
  A call of the function itself: the loop entered at \<open>i = 1\<close> with the initial segment size.
\<close>

definition makeSubnetFromRange ::
  "nat \<Rightarrow> int \<Rightarrow> (int \<Rightarrow> nat \<Rightarrow> 'a) \<Rightarrow> int \<Rightarrow> int \<Rightarrow> 'a list \<Rightarrow> 'a list option" where
  "makeSubnetFromRange width segSize0 emit startAddr endAddr arraySave =
     subnetLoop width segSize0 emit 1 segSize0 startAddr endAddr arraySave"

text \<open>
  \<^verbatim>\<open>_makeIPv4SubnetFromRange\<close>: 32 iterations from segment size 2147483648, pushing
  \<^verbatim>\<open>_toIPv4AddrString(intSegStart) + '/' + i\<close>.  When an argument is \<^verbatim>\<open>NaN\<close>, so is
  \<^verbatim>\<open>intBlockStart\<close> or \<^verbatim>\<open>intBlockEnd\<close> in every iteration; the test
  \<^verbatim>\<open>intBlockStart <= intBlockEnd\<close> is then false each time and nothing is pushed.
\<close>

definition ipv4SubnetString :: "int \<Rightarrow> nat \<Rightarrow> string" where
  "ipv4SubnetString intSegStart i = toIPv4AddrString (Num intSegStart) @ ''/'' @ toString10 (int i)"

definition makeIPv4SubnetFromRange :: "jsnum \<Rightarrow> jsnum \<Rightarrow> string list \<Rightarrow> string list option" where
  "makeIPv4SubnetFromRange intStartAddr intEndAddr arraySave =
     (case (intStartAddr, intEndAddr) of
        (Num s, Num e) \<Rightarrow> makeSubnetFromRange 32 2147483648 ipv4SubnetString s e arraySave
      | _ \<Rightarrow> Some arraySave)"

text \<open>
  \<^verbatim>\<open>_makeIPv6SubnetFromRange\<close>: 128 iterations from segment size \<open>2 ^ 127\<close> on BigInts,
  pushing \<^verbatim>\<open>_toIPv6AddrString(bintSegStart) + '/' + i\<close>.
\<close>

definition ipv6SubnetString :: "int \<Rightarrow> nat \<Rightarrow> string" where
  "ipv6SubnetString bintSegStart i = toIPv6AddrString bintSegStart @ ''/'' @ toString10 (int i)"

definition makeIPv6SubnetFromRange :: "int \<Rightarrow> int \<Rightarrow> string list \<Rightarrow> string list option" where
  "makeIPv6SubnetFromRange bintStartAddr bintEndAddr arraySave =
     makeSubnetFromRange 128 170141183460469231731687303715884105728 ipv6SubnetString
       bintStartAddr bintEndAddr arraySave"

section \<open>The range objects\<close>

text \<open>
  The fields of class \<^verbatim>\<open>IPRange\<close>; \<open>None\<close> is \<^verbatim>\<open>undefined\<close>.  The addresses are numbers in
  \<^verbatim>\<open>IPv4Range\<close> and BigInts in \<^verbatim>\<open>IPv6Range\<close>.
\<close>

record 'n IPRange =
  intStartAddr :: "'n option"
  intEndAddr :: "'n option"
  arraySubnet :: "string list option"

definition IPRange_new :: "'n IPRange" where
  "IPRange_new = \<lparr>intStartAddr = None, intEndAddr = None, arraySubnet = None\<rparr>"

text \<open>
  A setter either returns or throws; in both cases it leaves an object behind.  The getters
  do not change the object.
\<close>

datatype 'h outcome = Returns 'h | Throws js_error 'h

definition get_subnet :: "'n IPRange \<Rightarrow> js_error + string list" where
  "get_subnet this =
     (case arraySubnet this of None \<Rightarrow> Inl IPRangeAddressError | Some array \<Rightarrow> Inr array)"

definition IPv4Range_get_iprange :: "jsnum IPRange \<Rightarrow> js_error + string" where
  "IPv4Range_get_iprange this =
     (case (intStartAddr this, intEndAddr this) of
        (Some s, Some e) \<Rightarrow> Inr (toIPv4AddrString s @ ''-'' @ toIPv4AddrString e)
      | _ \<Rightarrow> Inl IPRangeAddressError)"

definition IPv6Range_get_iprange :: "int IPRange \<Rightarrow> js_error + string" where
  "IPv6Range_get_iprange this =
     (case (intStartAddr this, intEndAddr this) of
        (Some s, Some e) \<Rightarrow> Inr (toIPv6AddrString s @ ''-'' @ toIPv6AddrString e)
      | _ \<Rightarrow> Inl IPRangeAddressError)"

text \<open>
  \<^verbatim>\<open>strRange.indexOf('-') != -1 ? strRange.split('-') : [strRange, strRange]\<close>.
\<close>

definition rangeArray :: "string \<Rightarrow> string list" where
  "rangeArray strRange =
     (if CHR ''-'' \<in> set strRange then splitStr CHR ''-'' strRange else [strRange, strRange])"

text \<open>
  The setters.  The result is \<open>None\<close> when the decomposer does not return.  The array always
  has two elements; the last case stands for the \<^verbatim>\<open>TypeError\<close> of a missing one.
\<close>

definition IPv4Range_set_iprange :: "string \<Rightarrow> jsnum IPRange \<Rightarrow> jsnum IPRange outcome option" where
  "IPv4Range_set_iprange strIPv4Range this =
     (case rangeArray strIPv4Range of
        a0 # a1 # _ \<Rightarrow>
          if \<not> isIPv4Addr a0 \<or> \<not> isIPv4Addr a1 then Some (Throws IPRangeAddressError this)
          else
            let this1 = this\<lparr>intStartAddr := Some (toIPv4AddrInteger a0)\<rparr>;
                this2 = this1\<lparr>intEndAddr := Some (toIPv4AddrInteger a1)\<rparr>
            in if jsgt (toIPv4AddrInteger a0) (toIPv4AddrInteger a1)
               then Some (Throws IPRangeAddressError this2)
               else (case makeIPv4SubnetFromRange (toIPv4AddrInteger a0) (toIPv4AddrInteger a1) [] of
                       None \<Rightarrow> None
                     | Some array \<Rightarrow> Some (Returns (this2\<lparr>arraySubnet := Some array\<rparr>)))
      | _ \<Rightarrow> Some (Throws TypeError this))"

definition IPv6Range_set_iprange :: "string \<Rightarrow> int IPRange \<Rightarrow> int IPRange outcome option" where
  "IPv6Range_set_iprange strIPv6Range this =
     (case rangeArray strIPv6Range of
        a0 # a1 # _ \<Rightarrow>
          if \<not> isIPv6Addr a0 \<or> \<not> isIPv6Addr a1 then Some (Throws IPRangeAddressError this)
          else
            (case toIPv6AddrInteger a0 of
               Inl err \<Rightarrow> Some (Throws err this)
             | Inr s \<Rightarrow>
                 let this1 = this\<lparr>intStartAddr := Some s\<rparr>
                 in (case toIPv6AddrInteger a1 of
                       Inl err \<Rightarrow> Some (Throws err this1)
                     | Inr e \<Rightarrow>
                         let this2 = this1\<lparr>intEndAddr := Some e\<rparr>
                         in if s > e then Some (Throws IPRangeAddressError this2)
                            else (case makeIPv6SubnetFromRange s e [] of
                                    None \<Rightarrow> None
                                  | Some array \<Rightarrow>
                                      Some (Returns (this2\<lparr>arraySubnet := Some array\<rparr>)))))
      | _ \<Rightarrow> Some (Throws TypeError this))"

section \<open>The decomposer with its termination argument checked at run time\<close>

text \<open>
  The same loop with three additions, none of which changes what is computed: it carries
  the arguments \<open>callStart\<close> and \<open>callEnd\<close> of the call it belongs to and the number \<open>count\<close>
  of iterations this call has completed; it makes a recursive call only on a non-empty
  interval that lies inside the caller's interval and is strictly shorter; and it leaves the
  loop only after exactly \<open>width\<close> iterations.  Where a check fails the result is \<open>None\<close>.
\<close>

record callInfo =
  callStart :: int
  callEnd :: int
  count :: nat

definition callAllowed :: "callInfo \<Rightarrow> int \<Rightarrow> int \<Rightarrow> bool" where
  "callAllowed info s e =
     (callStart info \<le> s \<and> s \<le> e \<and> e \<le> callEnd info \<and> e - s < callEnd info - callStart info)"

definition enterCall :: "int \<Rightarrow> int \<Rightarrow> callInfo" where
  "enterCall s e = \<lparr>callStart = s, callEnd = e, count = 0\<rparr>"

definition nextIteration :: "callInfo \<Rightarrow> callInfo" where
  "nextIteration info = info\<lparr>count := count info + 1\<rparr>"

partial_function (option) checkedLoop ::
  "nat \<Rightarrow> int \<Rightarrow> (int \<Rightarrow> nat \<Rightarrow> 'a) \<Rightarrow> callInfo \<Rightarrow> nat \<Rightarrow> int \<Rightarrow> int \<Rightarrow> int \<Rightarrow>
   'a list \<Rightarrow> 'a list option"
where
  "checkedLoop width segSize0 emit info i segSize startAddr endAddr arraySave =
     (if i \<le> width then
        (let blockStart = tdiv (startAddr + segSize - 1) segSize * segSize;
             blockEnd = tdiv (endAddr + 1) segSize * segSize - 1
         in if blockStart \<le> blockEnd then
              Option.bind
                (if startAddr < blockStart
                 then (if callAllowed info startAddr (blockStart - 1)
                       then checkedLoop width segSize0 emit (enterCall startAddr (blockStart - 1))
                              1 segSize0 startAddr (blockStart - 1) arraySave
                       else None)
                 else Some arraySave)
                (\<lambda>a1. Option.bind
                   (pushSegments emit i segSize blockEnd blockStart (blockStart + segSize - 1) a1)
                   (\<lambda>(segStart, a2).
                      if blockEnd < endAddr
                      then Option.bind
                             (if callAllowed info (blockEnd + 1) endAddr
                              then checkedLoop width segSize0 emit (enterCall (blockEnd + 1) endAddr)
                                     1 segSize0 (blockEnd + 1) endAddr a2
                              else None)
                             (\<lambda>a3. checkedLoop width segSize0 emit (nextIteration info)
                                     (i + 1) (tdiv segSize 2) segStart blockEnd a3)
                      else checkedLoop width segSize0 emit (nextIteration info)
                             (i + 1) (tdiv segSize 2) segStart endAddr a2))
            else checkedLoop width segSize0 emit (nextIteration info)
                   (i + 1) (tdiv segSize 2) startAddr endAddr arraySave)
      else if count info = width then Some arraySave else None)"

declare checkedLoop.simps [code]

definition checkedMakeSubnetFromRange ::
  "nat \<Rightarrow> int \<Rightarrow> (int \<Rightarrow> nat \<Rightarrow> 'a) \<Rightarrow> int \<Rightarrow> int \<Rightarrow> 'a list \<Rightarrow> 'a list option" where
  "checkedMakeSubnetFromRange width segSize0 emit startAddr endAddr arraySave =
     checkedLoop width segSize0 emit (enterCall startAddr endAddr) 1 segSize0
       startAddr endAddr arraySave"

section \<open>Subnets as pairs of base address and prefix length\<close>

text \<open>
  A subnet \<open>(base, prefixLength)\<close> of an address family of the given width stands for the
  closed interval from \<open>base\<close> to \<open>base + 2 ^ (width - prefixLength) - 1\<close>.
\<close>

type_synonym subnet = "int \<times> nat"

definition blockSize :: "nat \<Rightarrow> nat \<Rightarrow> int" where
  "blockSize W p = 2 ^ (W - p)"

definition inSubnet :: "nat \<Rightarrow> int \<Rightarrow> subnet \<Rightarrow> bool" where
  "inSubnet W a sn = (fst sn \<le> a \<and> a \<le> fst sn + blockSize W (snd sn) - 1)"

text \<open>A CIDR block in the sense of the policy: aligned, with a prefix length from 1 to the width.\<close>

definition cidrBlock :: "nat \<Rightarrow> subnet \<Rightarrow> bool" where
  "cidrBlock W sn = (1 \<le> snd sn \<and> snd sn \<le> W \<and> blockSize W (snd sn) dvd fst sn)"

text \<open>
  \<open>consecutive W s xs t\<close>: the blocks of \<open>xs\<close> are CIDR blocks that follow one another without
  gap or overlap, the first starting at \<open>s\<close> and the last ending just before \<open>t\<close>.
\<close>

fun consecutive :: "nat \<Rightarrow> int \<Rightarrow> subnet list \<Rightarrow> int \<Rightarrow> bool" where
  "consecutive W s [] t = (s = t)"
| "consecutive W s (x # xs) t =
     (fst x = s \<and> cidrBlock W x \<and> consecutive W (s + blockSize W (snd x)) xs t)"

text \<open>Some aligned block of prefix length \<open>q\<close> lies inside the interval from \<open>s\<close> to \<open>e\<close>.\<close>

definition fitsAt :: "nat \<Rightarrow> nat \<Rightarrow> int \<Rightarrow> int \<Rightarrow> bool" where
  "fitsAt W q s e = (\<exists>c. blockSize W q dvd c \<and> s \<le> c \<and> c + blockSize W q - 1 \<le> e)"

text \<open>
  No aligned block with a shorter prefix (of length at least 1) that contains the base of the
  subnet lies inside the interval from \<open>s\<close> to \<open>e\<close>.
\<close>

definition maximalIn :: "nat \<Rightarrow> int \<Rightarrow> int \<Rightarrow> subnet \<Rightarrow> bool" where
  "maximalIn W s e sn =
     (\<forall>q c. 1 \<le> q \<and> q < snd sn \<and> blockSize W q dvd c \<and> c \<le> fst sn \<and> fst sn < c + blockSize W q
            \<longrightarrow> \<not> (s \<le> c \<and> c + blockSize W q - 1 \<le> e))"

text \<open>Rounding to segment boundaries, as the loop body computes them on non-negative numbers.\<close>

definition roundUp :: "int \<Rightarrow> int \<Rightarrow> int" where
  "roundUp z s = (s + z - 1) div z * z"

definition roundDown :: "int \<Rightarrow> int \<Rightarrow> int" where
  "roundDown z e = (e + 1) div z * z"

definition segBases :: "int \<Rightarrow> int \<Rightarrow> nat \<Rightarrow> int list" where
  "segBases st z n = map (\<lambda>j. st + int j * z) [0..<n]"

text \<open>
  A list of CIDR blocks covers the interval from \<open>s\<close> to \<open>e\<close> exactly: the addresses that lie in
  some block are those of the interval.
\<close>

definition coversExactly :: "nat \<Rightarrow> int \<Rightarrow> int \<Rightarrow> subnet list \<Rightarrow> bool" where
  "coversExactly W s e ys =
     ((\<forall>y\<in>set ys. cidrBlock W y) \<and>
      (\<forall>a. (\<exists>y\<in>set ys. inSubnet W a y) \<longleftrightarrow> (s \<le> a \<and> a \<le> e)))"

text \<open>\<^verbatim>\<open>pieces.join(sep)\<close> for a one-character separator, the inverse of \<open>splitStr\<close>.\<close>

fun joinStr :: "char \<Rightarrow> string list \<Rightarrow> string" where
  "joinStr sep [] = []"
| "joinStr sep [piece] = piece"
| "joinStr sep (piece # pieces) = piece @ sep # joinStr sep pieces"

text \<open>The number a group of hexadecimal digits stands for.\<close>

definition hextetValue :: "string \<Rightarrow> int" where
  "hextetValue g = int (hexValue g)"

text \<open>
  The canonical text of an octet: decimal digits without a leading zero (the single digit
  \<open>0\<close> apart), standing for a number up to 255.
\<close>

definition canonicalOctet :: "string \<Rightarrow> bool" where
  "canonicalOctet ds =
     (ds \<noteq> [] \<and> list_all isDigit ds \<and> (hd ds = CHR ''0'' \<longrightarrow> ds = ''0'') \<and> decimalValue ds \<le> 255)"

text \<open>The canonical text of an IPv6 group: four characters, digits or lowercase \<open>a\<close> to \<open>f\<close>.\<close>

definition canonicalHextet :: "string \<Rightarrow> bool" where
  "canonicalHextet g = (length g = 4 \<and> list_all (\<lambda>c. c \<in> set ''0123456789abcdef'') g)"

text \<open>
  The subnet an element of the returned array stands for.  The element is split at the
  slash; the text before it must pass the program's own address check and is read by the
  program's own address parser, the text after it must be a run of decimal digits and is
  the prefix length.  A string of any other form stands for no subnet.
\<close>

definition readIPv4Subnet :: "string \<Rightarrow> subnet option" where
  "readIPv4Subnet str =
     (case splitStr CHR ''/'' str of
        [addr, len] \<Rightarrow>
          (if isIPv4Addr addr \<and> len \<noteq> [] \<and> list_all isDigit len
           then (case toIPv4AddrInteger addr of
                   Num b \<Rightarrow> Some (b, decimalValue len)
                 | NaN \<Rightarrow> None)
           else None)
      | _ \<Rightarrow> None)"

definition readIPv6Subnet :: "string \<Rightarrow> subnet option" where
  "readIPv6Subnet str =
     (case splitStr CHR ''/'' str of
        [addr, len] \<Rightarrow>
          (if isIPv6Addr addr \<and> len \<noteq> [] \<and> list_all isDigit len
           then (case toIPv6AddrInteger addr of
                   Inr b \<Rightarrow> Some (b, decimalValue len)
                 | Inl err \<Rightarrow> None)
           else None)
      | _ \<Rightarrow> None)"

lemma tdiv_nonneg: "0 \<le> a \<Longrightarrow> 0 < b \<Longrightarrow> tdiv a b = a div b"
  by (cases "a = 0") (simp_all add: tdiv_def)

lemma roundUp_dvd: "z dvd roundUp z s"
  by (simp add: roundUp_def)

lemma roundDown_dvd: "z dvd roundDown z e"
  by (simp add: roundDown_def)

lemma roundUp_ge: "0 < z \<Longrightarrow> s \<le> roundUp z s"
proof -
  assume z: "0 < z"
  have "(s + z - 1) div z * z + (s + z - 1) mod z = s + z - 1" by simp
  moreover have "(s + z - 1) mod z < z" using z by simp
  ultimately show ?thesis unfolding roundUp_def by linarith
qed

lemma roundUp_less: "0 < z \<Longrightarrow> roundUp z s < s + z"
proof -
  assume z: "0 < z"
  have "(s + z - 1) div z * z + (s + z - 1) mod z = s + z - 1" by simp
  moreover have "0 \<le> (s + z - 1) mod z" using z by simp
  ultimately show ?thesis unfolding roundUp_def by linarith
qed

lemma roundDown_le: "0 < z \<Longrightarrow> roundDown z e \<le> e + 1"
proof -
  assume z: "0 < z"
  have "(e + 1) div z * z + (e + 1) mod z = e + 1" by simp
  moreover have "0 \<le> (e + 1) mod z" using z by simp
  ultimately show ?thesis unfolding roundDown_def by linarith
qed

lemma roundDown_greater: "0 < z \<Longrightarrow> e + 1 < roundDown z e + z"
proof -
  assume z: "0 < z"
  have "(e + 1) div z * z + (e + 1) mod z = e + 1" by simp
  moreover have "(e + 1) mod z < z" using z by simp
  ultimately show ?thesis unfolding roundDown_def by linarith
qed

text \<open>Two multiples of z that are less than z apart coincide.\<close>

lemma multiples_gap:
  fixes z :: int
  assumes "0 < z" "z dvd a" "z dvd b" "a < b"
  shows "a + z \<le> b"
proof -
  from assms obtain k where k: "b - a = z * k" by (metis dvd_diff dvd_def)
  with assms have "0 < z * k" by simp
  with \<open>0 < z\<close> have "0 < k" by (simp add: zero_less_mult_iff)
  hence "z * 1 \<le> z * k" using \<open>0 < z\<close> by (intro mult_left_mono) simp_all
  with k show ?thesis by simp
qed

lemma roundUp_least:
  assumes "0 < z" "z dvd c" "s \<le> c"
  shows "roundUp z s \<le> c"
proof (rule ccontr)
  assume "\<not> roundUp z s \<le> c"
  hence "c < roundUp z s" by simp
  from multiples_gap[OF assms(1) assms(2) roundUp_dvd this]
  have "c + z \<le> roundUp z s" .
  with roundUp_less[OF assms(1), of s] assms(3) show False by linarith
qed

lemma roundDown_greatest:
  assumes "0 < z" "z dvd c" "c \<le> e + 1"
  shows "c \<le> roundDown z e"
proof (rule ccontr)
  assume "\<not> c \<le> roundDown z e"
  hence "roundDown z e < c" by simp
  from multiples_gap[OF assms(1) roundDown_dvd assms(2) this]
  have "roundDown z e + z \<le> c" .
  with roundDown_greater[OF assms(1), of e] assms(3) show False by linarith
qed

lemma roundUp_id: "0 < z \<Longrightarrow> z dvd s \<Longrightarrow> roundUp z s = s"
  using roundUp_least[of z s s] roundUp_ge[of z s] by simp

lemma roundDown_id: "0 < z \<Longrightarrow> z dvd e + 1 \<Longrightarrow> roundDown z e = e + 1"
  using roundDown_greatest[of z "e + 1" e] roundDown_le[of z e] by simp

lemma segBases_0: "segBases st z 0 = []"
  by (simp add: segBases_def)

lemma segBases_Suc: "segBases st z (Suc n) = st # segBases (st + z) z n"
proof -
  have "map (\<lambda>j. st + int j * z) [0..<Suc n] =
        (st + int 0 * z) # map (\<lambda>j. st + int (Suc j) * z) [0..<n]"
    by (rule map_upt_Suc)
  also have "\<dots> = st # map (\<lambda>j. (st + z) + int j * z) [0..<n]"
    by (simp add: algebra_simps)
  finally show ?thesis by (simp add: segBases_def)
qed

lemma pushSegments_run:
  assumes z: "0 < z"
  shows "st + int n * z \<le> be + 1 \<Longrightarrow> be + 1 < st + int n * z + z \<Longrightarrow>
         pushSegments emit i z be st (st + z - 1) acc =
           Some (st + int n * z, acc @ map (\<lambda>b. emit b i) (segBases st z n))"
proof (induction n arbitrary: st acc)
  case 0
  then show ?case by (subst pushSegments.simps) (simp add: segBases_0)
next
  case (Suc n)
  have nz: "0 \<le> int n * z" using z by simp
  have eq: "st + int (Suc n) * z = st + z + int n * z" by (simp add: algebra_simps)
  from Suc.prems(1) nz z eq have le: "st + z - 1 \<le> be" by linarith
  have "pushSegments emit i z be st (st + z - 1) acc =
        pushSegments emit i z be (st + z) ((st + z) + z - 1) (acc @ [emit st i])"
    using le by (subst pushSegments.simps) simp
  also have "\<dots> = Some ((st + z) + int n * z,
                 (acc @ [emit st i]) @ map (\<lambda>b. emit b i) (segBases (st + z) z n))"
    using Suc.prems eq by (intro Suc.IH) linarith+
  finally show ?case using eq by (simp add: segBases_Suc)
qed

lemma subnetLoop_exhausted:
  "0 \<le> st \<Longrightarrow> 2 ^ (W - i) dvd st \<Longrightarrow> (i \<le> W \<longrightarrow> seg = 2 ^ (W - i)) \<Longrightarrow>
   subnetLoop W z0 emit i seg st (st - 1) acc = Some acc"
proof (induction "Suc W - i" arbitrary: i seg)
  case 0
  then show ?case by (subst subnetLoop.simps) simp
next
  case (Suc k)
  show ?case
  proof (cases "i \<le> W")
    case False
    then show ?thesis by (subst subnetLoop.simps) simp
  next
    case True
    with Suc.prems have seg: "seg = 2 ^ (W - i)" by simp
    hence pos: "0 < seg" by simp
    from Suc.prems seg have dv: "seg dvd st" by simp
    have bs: "tdiv (st + seg - 1) seg * seg = st"
      using roundUp_id[OF pos dv] Suc.prems(1) pos by (simp add: tdiv_nonneg roundUp_def)
    have be: "tdiv (st - 1 + 1) seg * seg - 1 = st - 1"
      using roundDown_id[OF pos, of "st - 1"] dv Suc.prems(1) pos
      by (simp add: tdiv_nonneg roundDown_def)
    have half: "Suc i \<le> W \<longrightarrow> tdiv seg 2 = 2 ^ (W - Suc i)"
    proof
      assume "Suc i \<le> W"
      then obtain m where m: "W - i = Suc m" by (cases "W - i") simp_all
      hence "W - Suc i = m" by simp
      with m seg show "tdiv seg 2 = 2 ^ (W - Suc i)" by (simp add: tdiv_nonneg)
    qed
    have dv': "(2::int) ^ (W - Suc i) dvd st"
    proof -
      have "(2::int) ^ (W - Suc i) dvd 2 ^ (W - i)" by (rule le_imp_power_dvd) simp
      with Suc.prems(2) show ?thesis by (blast intro: dvd_trans)
    qed
    have "subnetLoop W z0 emit i seg st (st - 1) acc =
          subnetLoop W z0 emit (Suc i) (tdiv seg 2) st (st - 1) acc"
      using True bs be by (subst subnetLoop.simps) (simp add: Let_def)
    also have "\<dots> = Some acc"
      using Suc.hyps(2) True Suc.prems(1) dv' half by (intro Suc.hyps(1)) simp_all
    finally show ?thesis .
  qed
qed

lemma tdiv_half_pow2: "Suc i \<le> W \<Longrightarrow> tdiv (2 ^ (W - i)) 2 = 2 ^ (W - Suc i)"
proof -
  assume "Suc i \<le> W"
  then obtain m where m: "W - i = Suc m" by (cases "W - i") simp_all
  hence "W - Suc i = m" by simp
  with m show ?thesis by (simp add: tdiv_nonneg)
qed

lemma subnetLoop_miss:
  assumes "i \<le> W" "0 < z" "0 \<le> s" "0 \<le> e + 1"
    and "\<not> roundUp z s \<le> roundDown z e - 1"
  shows "subnetLoop W z0 emit i z s e acc = subnetLoop W z0 emit (Suc i) (tdiv z 2) s e acc"
proof -
  have "tdiv (s + z - 1) z * z = roundUp z s"
    using assms by (simp add: tdiv_nonneg roundUp_def)
  moreover have "tdiv (e + 1) z * z - 1 = roundDown z e - 1"
    using assms by (simp add: tdiv_nonneg roundDown_def)
  ultimately show ?thesis
    using assms(1,5) by (subst subnetLoop.simps) (simp add: Let_def)
qed

lemma subnetLoop_hit:
  assumes i: "i \<le> W" and z: "z = 2 ^ (W - i)" and s: "0 \<le> s" and e: "0 \<le> e + 1"
    and bs: "bs = roundUp z s" and be: "be = roundDown z e - 1" and hit: "bs \<le> be"
    and n: "n = nat ((be + 1 - bs) div z)"
  shows "subnetLoop W z0 emit i z s e acc =
           Option.bind (if s < bs then subnetLoop W z0 emit 1 z0 s (bs - 1) acc else Some acc)
             (\<lambda>a1. if be < e
                    then subnetLoop W z0 emit 1 z0 (be + 1) e
                           (a1 @ map (\<lambda>b. emit b i) (segBases bs z n))
                    else Some (a1 @ map (\<lambda>b. emit b i) (segBases bs z n)))"
proof -
  have pos: "0 < z" using z by simp
  have e1: "tdiv (s + z - 1) z * z = bs"
    using s pos bs by (simp add: tdiv_nonneg roundUp_def)
  have e2: "tdiv (e + 1) z * z - 1 = be"
    using e pos be by (simp add: tdiv_nonneg roundDown_def)
  have dvbs: "z dvd bs" using bs roundUp_dvd by simp
  have dvbe: "z dvd be + 1" using be roundDown_dvd[of z e] by simp
  have "z dvd be + 1 - bs" using dvbs dvbe by (rule dvd_diff[rotated])
  hence "(be + 1 - bs) div z * z = be + 1 - bs" by simp
  moreover have "0 \<le> (be + 1 - bs) div z" using hit pos by (simp add: pos_imp_zdiv_nonneg_iff)
  ultimately have nz: "bs + int n * z = be + 1" using n by simp
  have run: "pushSegments emit i z be bs (bs + z - 1) a1 =
             Some (be + 1, a1 @ map (\<lambda>b. emit b i) (segBases bs z n))" for a1
    using pushSegments_run[OF pos, of bs n be emit i a1] nz pos by simp
  have bs0: "0 \<le> be + 1" using roundUp_ge[OF pos, of s] s bs hit by simp
  have dv2: "(2::int) ^ (W - Suc i) dvd be + 1"
  proof -
    have "(2::int) ^ (W - Suc i) dvd 2 ^ (W - i)" by (rule le_imp_power_dvd) simp
    with dvbe z show ?thesis by (blast intro: dvd_trans)
  qed
  have rest: "subnetLoop W z0 emit (Suc i) (tdiv z 2) (be + 1) be a = Some a" for a
    using subnetLoop_exhausted[OF bs0 dv2, of "tdiv z 2" z0 emit a] z tdiv_half_pow2[of i W]
    by simp
  have bee: "be \<le> e" using roundDown_le[OF pos, of e] be by simp
  show ?thesis
    apply (subst subnetLoop.simps)
    apply (simp only: i if_True Let_def e1 e2 hit run rest Option.bind.simps prod.case Suc_eq_plus1[symmetric])
    apply (cases "s < bs"; cases "be < e")
    using bee rest apply (auto split: Option.bind_split)
    done
qed

lemma blockSize_pos: "0 < blockSize W p"
  by (simp add: blockSize_def)

lemma blockSize_dvd: "p \<le> q \<Longrightarrow> blockSize W q dvd blockSize W p"
  unfolding blockSize_def by (rule le_imp_power_dvd) simp

lemma fits_iff:
  assumes z: "0 < z"
  shows "roundUp z s \<le> roundDown z e - 1 \<longleftrightarrow> (\<exists>c. z dvd c \<and> s \<le> c \<and> c + z - 1 \<le> e)"
proof
  assume "roundUp z s \<le> roundDown z e - 1"
  hence "roundUp z s < roundDown z e" by simp
  from multiples_gap[OF z roundUp_dvd roundDown_dvd this] roundDown_le[OF z, of e]
  have "roundUp z s + z - 1 \<le> e" by simp
  with roundUp_dvd roundUp_ge[OF z] show "\<exists>c. z dvd c \<and> s \<le> c \<and> c + z - 1 \<le> e" by blast
next
  assume "\<exists>c. z dvd c \<and> s \<le> c \<and> c + z - 1 \<le> e"
  then obtain c where c: "z dvd c" "s \<le> c" "c + z - 1 \<le> e" by blast
  have "z dvd c + z" using c(1) by simp
  from roundDown_greatest[OF z this] c(3) have "c + z \<le> roundDown z e" by simp
  moreover from roundUp_least[OF z c(1) c(2)] have "roundUp z s \<le> c" .
  ultimately show "roundUp z s \<le> roundDown z e - 1" using z by linarith
qed

lemma consecutive_le: "consecutive W s xs t \<Longrightarrow> s \<le> t"
proof (induction xs arbitrary: s)
  case Nil
  then show ?case by simp
next
  case (Cons x xs)
  from Cons.prems have "consecutive W (s + blockSize W (snd x)) xs t" by simp
  from Cons.IH[OF this] blockSize_pos[of W "snd x"] show ?case by linarith
qed

lemma consecutive_append:
  "consecutive W s (xs @ ys) t \<longleftrightarrow> (\<exists>m. consecutive W s xs m \<and> consecutive W m ys t)"
  by (induction xs arbitrary: s) auto

lemma consecutive_bounds:
  "consecutive W s xs t \<Longrightarrow> x \<in> set xs \<Longrightarrow> s \<le> fst x \<and> fst x + blockSize W (snd x) \<le> t"
proof (induction xs arbitrary: s)
  case Nil
  then show ?case by simp
next
  case (Cons y ys)
  from Cons.prems(1) have tl: "consecutive W (s + blockSize W (snd y)) ys t" and hd: "fst y = s"
    by simp_all
  show ?case
  proof (cases "x = y")
    case True
    with hd consecutive_le[OF tl] show ?thesis by simp
  next
    case False
    with Cons.prems(2) have "x \<in> set ys" by simp
    from Cons.IH[OF tl this] blockSize_pos[of W "snd y"] show ?thesis by linarith
  qed
qed

lemma consecutive_cidr: "consecutive W s xs t \<Longrightarrow> x \<in> set xs \<Longrightarrow> cidrBlock W x"
  by (induction xs arbitrary: s) auto

lemma consecutive_run:
  assumes "1 \<le> i" "i \<le> W"
  shows "blockSize W i dvd bs \<Longrightarrow>
         consecutive W bs (map (\<lambda>b. (b, i)) (segBases bs (blockSize W i) n))
           (bs + int n * blockSize W i)"
proof (induction n arbitrary: bs)
  case 0
  then show ?case by (simp add: segBases_0)
next
  case (Suc n)
  have "blockSize W i dvd bs + blockSize W i" using Suc.prems by simp
  from Suc.IH[OF this] Suc.prems assms show ?case
    by (simp add: segBases_Suc cidrBlock_def algebra_simps)
qed

lemma maximalIn_run:
  assumes "\<forall>j. 1 \<le> j \<and> j < i \<longrightarrow> \<not> fitsAt W j s e"
  shows "maximalIn W s e (b, i)"
  using assms unfolding maximalIn_def fitsAt_def by auto

lemma maximalIn_left:
  assumes nofit: "\<forall>j. 1 \<le> j \<and> j < i \<longrightarrow> \<not> fitsAt W j s e"
    and dv: "blockSize W i dvd bs" and lt: "fst x < bs"
    and mx: "maximalIn W s (bs - 1) x"
  shows "maximalIn W s e x"
  unfolding maximalIn_def
proof (intro allI impI)
  fix q c
  assume a: "1 \<le> q \<and> q < snd x \<and> blockSize W q dvd c \<and> c \<le> fst x \<and> fst x < c + blockSize W q"
  show "\<not> (s \<le> c \<and> c + blockSize W q - 1 \<le> e)"
  proof
    assume b: "s \<le> c \<and> c + blockSize W q - 1 \<le> e"
    with a have "fitsAt W q s e" unfolding fitsAt_def by blast
    with nofit a have "i \<le> q" by (meson not_le_imp_less)
    from blockSize_dvd[OF this, of W] dv have "blockSize W q dvd bs" by (blast intro: dvd_trans)
    moreover have "c < bs" using a lt by simp
    ultimately have "c + blockSize W q \<le> bs"
      using multiples_gap[OF blockSize_pos, of W q c bs] a by simp
    hence "s \<le> c \<and> c + blockSize W q - 1 \<le> bs - 1" using b by simp
    with mx a show False unfolding maximalIn_def by blast
  qed
qed

lemma maximalIn_right:
  assumes nofit: "\<forall>j. 1 \<le> j \<and> j < i \<longrightarrow> \<not> fitsAt W j s e"
    and dv: "blockSize W i dvd t" and ge: "t \<le> fst x" and st: "s \<le> t"
    and mx: "maximalIn W t e x"
  shows "maximalIn W s e x"
  unfolding maximalIn_def
proof (intro allI impI)
  fix q c
  assume a: "1 \<le> q \<and> q < snd x \<and> blockSize W q dvd c \<and> c \<le> fst x \<and> fst x < c + blockSize W q"
  show "\<not> (s \<le> c \<and> c + blockSize W q - 1 \<le> e)"
  proof
    assume b: "s \<le> c \<and> c + blockSize W q - 1 \<le> e"
    with a have "fitsAt W q s e" unfolding fitsAt_def by blast
    with nofit a have "i \<le> q" by (meson not_le_imp_less)
    from blockSize_dvd[OF this, of W] dv have dvt: "blockSize W q dvd t" by (blast intro: dvd_trans)
    have "t \<le> c"
    proof (rule ccontr)
      assume "\<not> t \<le> c"
      hence "c < t" by simp
      from multiples_gap[OF blockSize_pos _ dvt this] a have "c + blockSize W q \<le> t" by simp
      with a ge show False by simp
    qed
    with mx a b show False unfolding maximalIn_def by blast
  qed
qed

text \<open>
  What the loop leaves in the array, stated twice: for the loop that pushes the pairs
  \<open>(segStart, i)\<close> themselves, and for any other rendering of the pushed entries.
\<close>

lemma subnetLoop_hit_result:
  assumes i: "i \<le> W" and z: "z = 2 ^ (W - i)" and s: "0 \<le> s" and e: "0 \<le> e + 1"
    and bs: "bs = roundUp z s" and be: "be = roundDown z e - 1" and hit: "bs \<le> be"
    and n: "n = nat ((be + 1 - bs) div z)"
    and L: "\<And>acc. (if s < bs then subnetLoop W z0 emit 1 z0 s (bs - 1) acc else Some acc) =
              Some (acc @ map (\<lambda>(b, p). emit b p) xsL)"
    and R: "\<And>acc. (if be < e then subnetLoop W z0 emit 1 z0 (be + 1) e acc else Some acc) =
              Some (acc @ map (\<lambda>(b, p). emit b p) xsR)"
  shows "subnetLoop W z0 emit i z s e acc =
           Some (acc @ map (\<lambda>(b, p). emit b p) (xsL @ map (\<lambda>b. (b, i)) (segBases bs z n) @ xsR))"
proof -
  have "subnetLoop W z0 emit i z s e acc =
         Option.bind (if s < bs then subnetLoop W z0 emit 1 z0 s (bs - 1) acc else Some acc)
           (\<lambda>a1. if be < e
                  then subnetLoop W z0 emit 1 z0 (be + 1) e
                         (a1 @ map (\<lambda>b. emit b i) (segBases bs z n))
                  else Some (a1 @ map (\<lambda>b. emit b i) (segBases bs z n)))"
    using i z s e bs be hit n by (rule subnetLoop_hit)
  also have "\<dots> = (if be < e
                  then subnetLoop W z0 emit 1 z0 (be + 1) e
                         ((acc @ map (\<lambda>(b, p). emit b p) xsL) @ map (\<lambda>b. emit b i) (segBases bs z n))
                  else Some ((acc @ map (\<lambda>(b, p). emit b p) xsL) @ map (\<lambda>b. emit b i) (segBases bs z n)))"
    by (simp only: L Option.bind.simps)
  also have "\<dots> = Some (((acc @ map (\<lambda>(b, p). emit b p) xsL) @ map (\<lambda>b. emit b i) (segBases bs z n))
                      @ map (\<lambda>(b, p). emit b p) xsR)"
    by (rule R)
  finally show ?thesis by simp
qed

lemma subnetLoop_hit_good:
  fixes emit0 :: "int \<Rightarrow> nat \<Rightarrow> 'a"
  assumes range: "0 \<le> s" "s \<le> e"
    and IH: "\<And>s' e'. 0 \<le> s' \<Longrightarrow> s' \<le> e' \<Longrightarrow> s \<le> s' \<Longrightarrow> e' \<le> e \<Longrightarrow> e' - s' < e - s \<Longrightarrow>
          \<exists>xs. consecutive W s' xs (e' + 1) \<and> (\<forall>x\<in>set xs. maximalIn W s' e' x) \<and>
            (\<forall>acc. subnetLoop W z0 Pair 1 z0 s' e' acc = Some (acc @ xs)) \<and>
            (\<forall>(emit :: int \<Rightarrow> nat \<Rightarrow> 'a) acc. subnetLoop W z0 emit 1 z0 s' e' acc =
               Some (acc @ map (\<lambda>(b, p). emit b p) xs))"
    and i: "1 \<le> i" "i \<le> W"
    and nofit: "\<forall>j. 1 \<le> j \<and> j < i \<longrightarrow> \<not> fitsAt W j s e"
    and hit: "roundUp (blockSize W i) s \<le> roundDown (blockSize W i) e - 1"
  shows "\<exists>xs. consecutive W s xs (e + 1) \<and> (\<forall>x\<in>set xs. maximalIn W s e x) \<and>
           (\<forall>acc. subnetLoop W z0 Pair i (2 ^ (W - i)) s e acc = Some (acc @ xs)) \<and>
           (\<forall>(emit :: int \<Rightarrow> nat \<Rightarrow> 'a) acc. subnetLoop W z0 emit i (2 ^ (W - i)) s e acc =
              Some (acc @ map (\<lambda>(b, p). emit b p) xs))"
proof -
  define z where "z = blockSize W i"
  define bs where "bs = roundUp z s"
  define be where "be = roundDown z e - 1"
  define n where "n = nat ((be + 1 - bs) div z)"
  have pos: "0 < z" unfolding z_def by (rule blockSize_pos)
  have z2: "z = 2 ^ (W - i)" unfolding z_def blockSize_def ..
  have hit': "bs \<le> be" using hit unfolding bs_def be_def z_def .
  have sbs: "s \<le> bs" unfolding bs_def by (rule roundUp_ge[OF pos])
  have bee: "be \<le> e" unfolding be_def using roundDown_le[OF pos, of e] by simp
  have dvbs: "z dvd bs" unfolding bs_def by (rule roundUp_dvd)
  have dvbe: "z dvd be + 1" unfolding be_def using roundDown_dvd[of z e] by simp
  have "z dvd be + 1 - bs" using dvbs dvbe by (rule dvd_diff[rotated])
  hence "(be + 1 - bs) div z * z = be + 1 - bs" by simp
  moreover have "0 \<le> (be + 1 - bs) div z" using hit' pos by (simp add: pos_imp_zdiv_nonneg_iff)
  ultimately have nz: "bs + int n * z = be + 1" unfolding n_def by simp
  \<comment> \<open>the part below the aligned run\<close>
  have "\<exists>xsL. consecutive W s xsL bs \<and> (\<forall>x\<in>set xsL. maximalIn W s (bs - 1) x) \<and>
          (\<forall>acc. (if s < bs then subnetLoop W z0 Pair 1 z0 s (bs - 1) acc else Some acc) =
               Some (acc @ xsL)) \<and>
          (\<forall>(emit :: int \<Rightarrow> nat \<Rightarrow> 'a) acc.
             (if s < bs then subnetLoop W z0 emit 1 z0 s (bs - 1) acc else Some acc) =
               Some (acc @ map (\<lambda>(b, p). emit b p) xsL))"
  proof (cases "s < bs")
    case True
    have "\<exists>xs. consecutive W s xs (bs - 1 + 1) \<and> (\<forall>x\<in>set xs. maximalIn W s (bs - 1) x) \<and>
            (\<forall>acc. subnetLoop W z0 Pair 1 z0 s (bs - 1) acc = Some (acc @ xs)) \<and>
            (\<forall>(emit :: int \<Rightarrow> nat \<Rightarrow> 'a) acc. subnetLoop W z0 emit 1 z0 s (bs - 1) acc =
               Some (acc @ map (\<lambda>(b, p). emit b p) xs))"
      using range True hit' bee by (intro IH) simp_all
    with True show ?thesis by simp
  next
    case False
    with sbs have "s = bs" by simp
    thus ?thesis by (intro exI[of _ "[]"]) simp
  qed
  then obtain xsL where L0: "consecutive W s xsL bs \<and> (\<forall>x\<in>set xsL. maximalIn W s (bs - 1) x) \<and>
          (\<forall>acc. (if s < bs then subnetLoop W z0 Pair 1 z0 s (bs - 1) acc else Some acc) =
               Some (acc @ xsL)) \<and>
          (\<forall>(emit :: int \<Rightarrow> nat \<Rightarrow> 'a) acc.
             (if s < bs then subnetLoop W z0 emit 1 z0 s (bs - 1) acc else Some acc) =
               Some (acc @ map (\<lambda>(b, p). emit b p) xsL))" ..
  have L: "consecutive W s xsL bs" "\<forall>x\<in>set xsL. maximalIn W s (bs - 1) x"
    "\<And>acc. (if s < bs then subnetLoop W z0 Pair 1 z0 s (bs - 1) acc else Some acc) =
          Some (acc @ map (\<lambda>(b, p). Pair b p) xsL)"
    "\<And>(emit :: int \<Rightarrow> nat \<Rightarrow> 'a) acc.
        (if s < bs then subnetLoop W z0 emit 1 z0 s (bs - 1) acc else Some acc) =
          Some (acc @ map (\<lambda>(b, p). emit b p) xsL)"
    using L0 by simp_all
  \<comment> \<open>the part above the aligned run\<close>
  have "\<exists>xsR. consecutive W (be + 1) xsR (e + 1) \<and> (\<forall>x\<in>set xsR. maximalIn W (be + 1) e x) \<and>
          (\<forall>acc. (if be < e then subnetLoop W z0 Pair 1 z0 (be + 1) e acc else Some acc) =
               Some (acc @ xsR)) \<and>
          (\<forall>(emit :: int \<Rightarrow> nat \<Rightarrow> 'a) acc.
             (if be < e then subnetLoop W z0 emit 1 z0 (be + 1) e acc else Some acc) =
               Some (acc @ map (\<lambda>(b, p). emit b p) xsR))"
  proof (cases "be < e")
    case True
    have "\<exists>xs. consecutive W (be + 1) xs (e + 1) \<and> (\<forall>x\<in>set xs. maximalIn W (be + 1) e x) \<and>
            (\<forall>acc. subnetLoop W z0 Pair 1 z0 (be + 1) e acc = Some (acc @ xs)) \<and>
            (\<forall>(emit :: int \<Rightarrow> nat \<Rightarrow> 'a) acc. subnetLoop W z0 emit 1 z0 (be + 1) e acc =
               Some (acc @ map (\<lambda>(b, p). emit b p) xs))"
      using range True hit' sbs by (intro IH) simp_all
    with True show ?thesis by simp
  next
    case False
    with bee have "be = e" by simp
    thus ?thesis by (intro exI[of _ "[]"]) simp
  qed
  then obtain xsR where R0: "consecutive W (be + 1) xsR (e + 1) \<and>
          (\<forall>x\<in>set xsR. maximalIn W (be + 1) e x) \<and>
          (\<forall>acc. (if be < e then subnetLoop W z0 Pair 1 z0 (be + 1) e acc else Some acc) =
               Some (acc @ xsR)) \<and>
          (\<forall>(emit :: int \<Rightarrow> nat \<Rightarrow> 'a) acc.
             (if be < e then subnetLoop W z0 emit 1 z0 (be + 1) e acc else Some acc) =
               Some (acc @ map (\<lambda>(b, p). emit b p) xsR))" ..
  have R: "consecutive W (be + 1) xsR (e + 1)"
    "\<forall>x\<in>set xsR. maximalIn W (be + 1) e x"
    "\<And>acc. (if be < e then subnetLoop W z0 Pair 1 z0 (be + 1) e acc else Some acc) =
          Some (acc @ map (\<lambda>(b, p). Pair b p) xsR)"
    "\<And>(emit :: int \<Rightarrow> nat \<Rightarrow> 'a) acc.
        (if be < e then subnetLoop W z0 emit 1 z0 (be + 1) e acc else Some acc) =
          Some (acc @ map (\<lambda>(b, p). emit b p) xsR)"
    using R0 by simp_all
  define run where "run = map (\<lambda>b. (b, i)) (segBases bs z n)"
  have crun: "consecutive W bs run (be + 1)"
    using consecutive_run[OF i, of bs n] dvbs nz unfolding run_def z_def by simp
  have cons: "consecutive W s (xsL @ run @ xsR) (e + 1)"
    using L(1) crun R(1) by (auto simp: consecutive_append)
  have maxL: "maximalIn W s e x" if "x \<in> set xsL" for x
  proof -
    from consecutive_bounds[OF L(1) that] blockSize_pos[of W "snd x"]
    have a: "fst x < bs" by linarith
    have b: "blockSize W i dvd bs" using dvbs unfolding z_def .
    have c: "maximalIn W s (bs - 1) x" using L(2) that by blast
    show ?thesis by (rule maximalIn_left[OF nofit b a c])
  qed
  have maxM: "maximalIn W s e x" if "x \<in> set run" for x
  proof -
    from that obtain b where "x = (b, i)" unfolding run_def by auto
    with maximalIn_run[OF nofit] show ?thesis by simp
  qed
  have maxR: "maximalIn W s e x" if "x \<in> set xsR" for x
  proof -
    from consecutive_bounds[OF R(1) that] have a: "be + 1 \<le> fst x" by simp
    have b: "s \<le> be + 1" using sbs hit' by simp
    have c: "blockSize W i dvd be + 1" using dvbe unfolding z_def .
    have d: "maximalIn W (be + 1) e x" using R(2) that by blast
    show ?thesis by (rule maximalIn_right[OF nofit c a b d])
  qed
  have e0: "0 \<le> e + 1" using range by simp
  have eqP0: "subnetLoop W z0 Pair i z s e acc =
             Some (acc @ map (\<lambda>(b, p). Pair b p) (xsL @ run @ xsR))" for acc
    unfolding run_def
    by (rule subnetLoop_hit_result[OF i(2) z2 range(1) e0 bs_def be_def hit' n_def L(3) R(3)])
  have eqP: "subnetLoop W z0 Pair i (2 ^ (W - i)) s e acc = Some (acc @ (xsL @ run @ xsR))" for acc
    using eqP0[of acc] unfolding z2 by simp
  have eq0: "subnetLoop W z0 emit i z s e acc =
            Some (acc @ map (\<lambda>(b, p). emit b p) (xsL @ run @ xsR))"
    for emit :: "int \<Rightarrow> nat \<Rightarrow> 'a" and acc
    unfolding run_def
    by (rule subnetLoop_hit_result[OF i(2) z2 range(1) e0 bs_def be_def hit' n_def L(4) R(4)])
  have eq: "subnetLoop W z0 emit i (2 ^ (W - i)) s e acc =
            Some (acc @ map (\<lambda>(b, p). emit b p) (xsL @ run @ xsR))"
    for emit :: "int \<Rightarrow> nat \<Rightarrow> 'a" and acc
    using eq0[of emit acc] unfolding z2 .
  have mx: "\<forall>x\<in>set (xsL @ run @ xsR). maximalIn W s e x"
    using maxL maxM maxR by auto
  show ?thesis
    by (rule exI[of _ "xsL @ run @ xsR"]) (intro conjI allI cons mx eq eqP)
qed

lemma subnetLoop_level:
  fixes emit0 :: "int \<Rightarrow> nat \<Rightarrow> 'a"
  assumes range: "0 \<le> s" "s \<le> e"
    and IH: "\<And>s' e'. 0 \<le> s' \<Longrightarrow> s' \<le> e' \<Longrightarrow> s \<le> s' \<Longrightarrow> e' \<le> e \<Longrightarrow> e' - s' < e - s \<Longrightarrow>
          \<exists>xs. consecutive W s' xs (e' + 1) \<and> (\<forall>x\<in>set xs. maximalIn W s' e' x) \<and>
            (\<forall>acc. subnetLoop W z0 Pair 1 z0 s' e' acc = Some (acc @ xs)) \<and>
            (\<forall>(emit :: int \<Rightarrow> nat \<Rightarrow> 'a) acc. subnetLoop W z0 emit 1 z0 s' e' acc =
               Some (acc @ map (\<lambda>(b, p). emit b p) xs))"
  shows "1 \<le> i \<Longrightarrow> i \<le> W \<Longrightarrow> \<forall>j. 1 \<le> j \<and> j < i \<longrightarrow> \<not> fitsAt W j s e \<Longrightarrow>
         \<exists>xs. consecutive W s xs (e + 1) \<and> (\<forall>x\<in>set xs. maximalIn W s e x) \<and>
           (\<forall>acc. subnetLoop W z0 Pair i (2 ^ (W - i)) s e acc = Some (acc @ xs)) \<and>
           (\<forall>(emit :: int \<Rightarrow> nat \<Rightarrow> 'a) acc. subnetLoop W z0 emit i (2 ^ (W - i)) s e acc =
              Some (acc @ map (\<lambda>(b, p). emit b p) xs))"
proof (induction "W - i" arbitrary: i rule: less_induct)
  case less
  show ?case
  proof (cases "roundUp (blockSize W i) s \<le> roundDown (blockSize W i) e - 1")
    case True
    from range IH less.prems True show ?thesis by (rule subnetLoop_hit_good)
  next
    case False
    hence nf: "\<not> fitsAt W i s e"
      using fits_iff[OF blockSize_pos, of W i s e] unfolding fitsAt_def by simp
    have "i \<noteq> W"
    proof
      assume "i = W"
      hence "fitsAt W i s e" unfolding fitsAt_def blockSize_def using range by auto
      with nf show False ..
    qed
    with less.prems have lt: "Suc i \<le> W" by simp
    have nofit': "\<forall>j. 1 \<le> j \<and> j < Suc i \<longrightarrow> \<not> fitsAt W j s e"
      using less.prems(3) nf by (auto simp: less_Suc_eq)
    have "\<exists>xs. consecutive W s xs (e + 1) \<and> (\<forall>x\<in>set xs. maximalIn W s e x) \<and>
           (\<forall>acc. subnetLoop W z0 Pair (Suc i) (2 ^ (W - Suc i)) s e acc = Some (acc @ xs)) \<and>
           (\<forall>(emit :: int \<Rightarrow> nat \<Rightarrow> 'a) acc. subnetLoop W z0 emit (Suc i) (2 ^ (W - Suc i)) s e acc =
              Some (acc @ map (\<lambda>(b, p). emit b p) xs))"
    proof (rule less.hyps)
      show "W - Suc i < W - i" using lt by simp
      show "1 \<le> Suc i" by simp
      show "Suc i \<le> W" by (rule lt)
      show "\<forall>j. 1 \<le> j \<and> j < Suc i \<longrightarrow> \<not> fitsAt W j s e" by (rule nofit')
    qed
    moreover have "subnetLoop W z0 emit i (2 ^ (W - i)) s e acc =
                   subnetLoop W z0 emit (Suc i) (2 ^ (W - Suc i)) s e acc"
      for emit :: "int \<Rightarrow> nat \<Rightarrow> 'a" and acc
      using subnetLoop_miss[of i W "2 ^ (W - i)" s e z0 emit acc] less.prems(2) range False
        tdiv_half_pow2[OF lt]
      by (simp add: blockSize_def)
    moreover have "subnetLoop W z0 Pair i (2 ^ (W - i)) s e acc =
                   subnetLoop W z0 Pair (Suc i) (2 ^ (W - Suc i)) s e acc" for acc
      using subnetLoop_miss[of i W "2 ^ (W - i)" s e z0 Pair acc] less.prems(2) range False
        tdiv_half_pow2[OF lt]
      by (simp add: blockSize_def)
    ultimately show ?thesis by simp
  qed
qed

text \<open>
  The decomposer returns on every interval of non-negative addresses, and what it appends
  to the array is a gap-free ascending chain of CIDR blocks from \<open>s\<close> to \<open>e\<close>, each of them
  maximal.
\<close>

lemma makeSubnetFromRange_good:
  fixes emit0 :: "int \<Rightarrow> nat \<Rightarrow> 'a"
  assumes W: "1 \<le> W"
  shows "0 \<le> s \<Longrightarrow> s \<le> e \<Longrightarrow>
         \<exists>xs. consecutive W s xs (e + 1) \<and> (\<forall>x\<in>set xs. maximalIn W s e x) \<and>
           (\<forall>acc. makeSubnetFromRange W (2 ^ (W - 1)) Pair s e acc = Some (acc @ xs)) \<and>
           (\<forall>(emit :: int \<Rightarrow> nat \<Rightarrow> 'a) acc. makeSubnetFromRange W (2 ^ (W - 1)) emit s e acc =
              Some (acc @ map (\<lambda>(b, p). emit b p) xs))"
proof (induction "nat (e - s)" arbitrary: s e rule: less_induct)
  case less
  have IH: "\<exists>xs. consecutive W s' xs (e' + 1) \<and> (\<forall>x\<in>set xs. maximalIn W s' e' x) \<and>
            (\<forall>acc. subnetLoop W (2 ^ (W - 1)) Pair 1 (2 ^ (W - 1)) s' e' acc = Some (acc @ xs)) \<and>
            (\<forall>(emit :: int \<Rightarrow> nat \<Rightarrow> 'a) acc. subnetLoop W (2 ^ (W - 1)) emit 1 (2 ^ (W - 1)) s' e' acc =
               Some (acc @ map (\<lambda>(b, p). emit b p) xs))"
    if "0 \<le> s'" "s' \<le> e'" "s \<le> s'" "e' \<le> e" "e' - s' < e - s" for s' e'
    using less.hyps[of e' s'] that unfolding makeSubnetFromRange_def by simp
  have "\<exists>xs. consecutive W s xs (e + 1) \<and> (\<forall>x\<in>set xs. maximalIn W s e x) \<and>
           (\<forall>acc. subnetLoop W (2 ^ (W - 1)) Pair 1 (2 ^ (W - 1)) s e acc = Some (acc @ xs)) \<and>
           (\<forall>(emit :: int \<Rightarrow> nat \<Rightarrow> 'a) acc. subnetLoop W (2 ^ (W - 1)) emit 1 (2 ^ (W - 1)) s e acc =
              Some (acc @ map (\<lambda>(b, p). emit b p) xs))"
  proof (rule subnetLoop_level[OF less.prems IH])
    show "1 \<le> (1::nat)" by simp
    show "1 \<le> W" by (rule W)
    show "\<forall>j. 1 \<le> j \<and> j < 1 \<longrightarrow> \<not> fitsAt W j s e" by simp
  qed
  thus ?case unfolding makeSubnetFromRange_def .
qed

lemma consecutive_count:
  "consecutive W s xs t \<Longrightarrow>
   length (filter (inSubnet W a) xs) = (if s \<le> a \<and> a < t then 1 else 0)"
proof (induction xs arbitrary: s)
  case Nil
  then show ?case by simp
next
  case (Cons x xs)
  from Cons.prems have hd: "fst x = s" and tl: "consecutive W (s + blockSize W (snd x)) xs t"
    by simp_all
  note IH = Cons.IH[OF tl]
  have le: "s + blockSize W (snd x) \<le> t" by (rule consecutive_le[OF tl])
  have pos: "0 < blockSize W (snd x)" by (rule blockSize_pos)
  have here: "inSubnet W a x \<longleftrightarrow> s \<le> a \<and> a < s + blockSize W (snd x)"
    unfolding inSubnet_def hd by auto
  show ?case
  proof (cases "inSubnet W a x")
    case True
    with here IH le pos show ?thesis by simp
  next
    case False
    with here IH le pos show ?thesis by auto
  qed
qed

lemma consecutive_ascending: "consecutive W s xs t \<Longrightarrow> sorted_wrt (<) (map fst xs)"
proof (induction xs arbitrary: s)
  case Nil
  then show ?case by simp
next
  case (Cons x xs)
  from Cons.prems have hd: "fst x = s" and tl: "consecutive W (s + blockSize W (snd x)) xs t"
    by simp_all
  have "fst x < fst y" if "y \<in> set xs" for y
    using consecutive_bounds[OF tl that] blockSize_pos[of W "snd x"] hd by linarith
  with Cons.IH[OF tl] show ?case by simp
qed

lemma consecutive_length: "consecutive W s xs t \<Longrightarrow> card (fst ` set xs) = length xs"
proof -
  assume "consecutive W s xs t"
  hence "sorted_wrt (<) (map fst xs)" by (rule consecutive_ascending)
  hence "distinct (map fst xs)" by (simp add: strict_sorted_iff)
  hence "card (set (map fst xs)) = length (map fst xs)" by (rule distinct_card)
  thus ?thesis by simp
qed

text \<open>A block of a cover that contains the base of a maximal block starts at that base.\<close>

lemma maximal_base_covered:
  assumes mx: "maximalIn W s e x" and cx: "cidrBlock W x"
    and cy: "cidrBlock W y" and iny: "inSubnet W (fst x) y"
    and inside: "s \<le> fst y" "fst y + blockSize W (snd y) - 1 \<le> e"
  shows "fst y = fst x"
proof -
  have le: "snd x \<le> snd y"
  proof (rule ccontr)
    assume "\<not> snd x \<le> snd y"
    hence "snd y < snd x" by simp
    with mx cy iny inside show False
      unfolding maximalIn_def cidrBlock_def inSubnet_def by force
  qed
  from blockSize_dvd[OF le, of W] cx have dvx: "blockSize W (snd y) dvd fst x"
    unfolding cidrBlock_def by (blast intro: dvd_trans)
  have dvy: "blockSize W (snd y) dvd fst y" using cy unfolding cidrBlock_def by simp
  show ?thesis
  proof (rule ccontr)
    assume "fst y \<noteq> fst x"
    with iny have "fst y < fst x" unfolding inSubnet_def by simp
    from multiples_gap[OF blockSize_pos dvy dvx this] iny show False
      unfolding inSubnet_def by simp
  qed
qed

lemma coversExactly_inside:
  assumes "coversExactly W s e ys" "y \<in> set ys"
  shows "s \<le> fst y \<and> fst y + blockSize W (snd y) - 1 \<le> e"
proof -
  have "inSubnet W (fst y) y" "inSubnet W (fst y + blockSize W (snd y) - 1) y"
    unfolding inSubnet_def using blockSize_pos[of W "snd y"] by simp_all
  with assms show ?thesis unfolding coversExactly_def by blast
qed

lemma minimal_count:
  assumes cons: "consecutive W s xs (e + 1)" and mx: "\<forall>x\<in>set xs. maximalIn W s e x"
    and cov: "coversExactly W s e ys"
  shows "length xs \<le> length ys"
proof -
  have "fst ` set xs \<subseteq> fst ` set ys"
  proof
    fix b assume "b \<in> fst ` set xs"
    then obtain x where x: "x \<in> set xs" "b = fst x" by blast
    from consecutive_bounds[OF cons x(1)] blockSize_pos[of W "snd x"]
    have "s \<le> fst x \<and> fst x \<le> e" by linarith
    with cov obtain y where y: "y \<in> set ys" "inSubnet W (fst x) y"
      unfolding coversExactly_def by blast
    have "fst y = fst x"
      using mx x(1) consecutive_cidr[OF cons x(1)] cov y coversExactly_inside[OF cov y(1)]
      by (intro maximal_base_covered[of W s e x y]) (auto simp: coversExactly_def)
    moreover have "fst y \<in> fst ` set ys" using y(1) by (rule imageI)
    ultimately show "b \<in> fst ` set ys" using x(2) by simp
  qed
  hence "card (fst ` set xs) \<le> card (fst ` set ys)" by (intro card_mono) simp_all
  also have "\<dots> \<le> card (set ys)" by (intro card_image_le) simp
  also have "\<dots> \<le> length ys" by (rule card_length)
  finally show ?thesis using consecutive_length[OF cons] by simp
qed

lemma consecutive_covers:
  assumes "consecutive W s xs (e + 1)"
  shows "coversExactly W s e xs"
proof -
  have "(\<exists>y\<in>set xs. inSubnet W a y) \<longleftrightarrow> (s \<le> a \<and> a \<le> e)" for a
  proof -
    have "(\<exists>y\<in>set xs. inSubnet W a y) \<longleftrightarrow> filter (inSubnet W a) xs \<noteq> []"
      by (simp add: filter_empty_conv)
    also have "\<dots> \<longleftrightarrow> length (filter (inSubnet W a) xs) \<noteq> 0" by simp
    also have "\<dots> \<longleftrightarrow> (s \<le> a \<and> a \<le> e)"
      unfolding consecutive_count[OF assms] by simp
    finally show ?thesis .
  qed
  with consecutive_cidr[OF assms] show ?thesis unfolding coversExactly_def by blast
qed

lemma consecutive_single:
  assumes "consecutive W a xs (a + 1)"
  shows "xs = [(a, W)]"
proof (cases xs)
  case Nil
  with assms show ?thesis by simp
next
  case (Cons x xs')
  with assms have hd: "fst x = a" and cb: "cidrBlock W x"
    and tl: "consecutive W (a + blockSize W (snd x)) xs' (a + 1)" by simp_all
  from consecutive_le[OF tl] blockSize_pos[of W "snd x"] have one: "blockSize W (snd x) = 1"
    by linarith
  hence "(2::int) ^ (W - snd x) = 2 ^ 0" by (simp add: blockSize_def)
  hence "W - snd x = 0" by (subst (asm) power_inject_exp) simp_all
  with cb have p: "snd x = W" unfolding cidrBlock_def by simp
  have "xs' = []"
  proof (cases xs')
    case Nil
    then show ?thesis .
  next
    case (Cons y ys)
    with tl one have "consecutive W (a + 1 + blockSize W (snd y)) ys (a + 1)" by simp
    from consecutive_le[OF this] blockSize_pos[of W "snd y"] show ?thesis by linarith
  qed
  with Cons hd p show ?thesis by (cases x) simp
qed

lemma maximal_at_half:
  assumes W: "1 \<le> W" and mx: "maximalIn W 0 (2 ^ W - 1) x" and cb: "cidrBlock W x"
    and b: "fst x = 0 \<or> fst x = 2 ^ (W - 1)"
  shows "snd x = 1"
proof (rule ccontr)
  assume "snd x \<noteq> 1"
  with cb have p: "1 < snd x" unfolding cidrBlock_def by simp
  define h :: int where "h = 2 ^ (W - 1)"
  have hpos: "0 < h" unfolding h_def by simp
  have two: "(2::int) ^ W = 2 * h" unfolding h_def using W by (cases W) simp_all
  have bs1: "blockSize W 1 = h" unfolding h_def blockSize_def ..
  from b have b': "fst x = 0 \<or> fst x = h" unfolding h_def .
  have "h dvd fst x" using b' by auto
  hence "1 \<le> (1::nat) \<and> 1 < snd x \<and> blockSize W 1 dvd fst x \<and> fst x \<le> fst x \<and>
        fst x < fst x + blockSize W 1"
    using p hpos unfolding bs1 by simp
  with mx have "\<not> (0 \<le> fst x \<and> fst x + blockSize W 1 - 1 \<le> 2 ^ W - 1)"
    unfolding maximalIn_def by blast
  thus False unfolding bs1 two using b' hpos by auto
qed

lemma consecutive_full:
  assumes W: "1 \<le> W" and cons: "consecutive W 0 xs (2 ^ W)"
    and mx: "\<forall>x\<in>set xs. maximalIn W 0 (2 ^ W - 1) x"
  shows "xs = [(0, 1), (2 ^ (W - 1), 1)]"
proof -
  have two: "(2::int) ^ W = 2 * 2 ^ (W - 1)" using W by (cases W) simp_all
  have pos: "(0::int) < 2 ^ (W - 1)" by simp
  from cons pos two obtain x xs1 where xs: "xs = x # xs1" by (cases xs) auto
  with cons have x0: "fst x = 0" and cx: "cidrBlock W x"
    and tl1: "consecutive W (blockSize W (snd x)) xs1 (2 ^ W)" by simp_all
  from maximal_at_half[OF W _ cx] mx xs x0 have px: "snd x = 1" by simp
  with tl1 have tl1': "consecutive W (2 ^ (W - 1)) xs1 (2 ^ W)" by (simp add: blockSize_def)
  with pos two obtain y xs2 where xs1: "xs1 = y # xs2" by (cases xs1) auto
  with tl1' have y0: "fst y = 2 ^ (W - 1)" and cy: "cidrBlock W y"
    and tl2: "consecutive W (2 ^ (W - 1) + blockSize W (snd y)) xs2 (2 ^ W)" by simp_all
  from maximal_at_half[OF W _ cy] mx xs xs1 y0 have py: "snd y = 1" by simp
  with tl2 two have tl2': "consecutive W (2 ^ W) xs2 (2 ^ W)" by (simp add: blockSize_def)
  have "xs2 = []"
  proof (cases xs2)
    case Nil
    then show ?thesis .
  next
    case (Cons u us)
    with tl2' have "consecutive W (2 ^ W + blockSize W (snd u)) us (2 ^ W)" by simp
    from consecutive_le[OF this] blockSize_pos[of W "snd u"] show ?thesis by linarith
  qed
  with xs xs1 x0 px y0 py show ?thesis by (cases x; cases y) simp
qed

lemma makeIPv4SubnetFromRange_good:
  assumes "0 \<le> s" "s \<le> e"
  shows "\<exists>xs. consecutive 32 s xs (e + 1) \<and> (\<forall>x\<in>set xs. maximalIn 32 s e x) \<and>
           (\<forall>acc. makeSubnetFromRange 32 2147483648 Pair s e acc = Some (acc @ xs)) \<and>
           (\<forall>acc. makeIPv4SubnetFromRange (Num s) (Num e) acc =
              Some (acc @ map (\<lambda>(b, p). ipv4SubnetString b p) xs))"
proof -
  from makeSubnetFromRange_good[of 32 s e, where 'a = string] assms
  obtain xs where xs: "consecutive 32 s xs (e + 1)" "\<forall>x\<in>set xs. maximalIn 32 s e x"
    "\<forall>acc. makeSubnetFromRange 32 2147483648 Pair s e acc = Some (acc @ xs)"
    "\<forall>(emit :: int \<Rightarrow> nat \<Rightarrow> string) acc. makeSubnetFromRange 32 2147483648 emit s e acc =
        Some (acc @ map (\<lambda>(b, p). emit b p) xs)"
    by auto
  show ?thesis
    by (rule exI[of _ xs]) (simp add: xs makeIPv4SubnetFromRange_def)
qed

lemma makeIPv6SubnetFromRange_good:
  assumes "0 \<le> s" "s \<le> e"
  shows "\<exists>xs. consecutive 128 s xs (e + 1) \<and> (\<forall>x\<in>set xs. maximalIn 128 s e x) \<and>
           (\<forall>acc. makeSubnetFromRange 128 170141183460469231731687303715884105728 Pair s e acc =
              Some (acc @ xs)) \<and>
           (\<forall>acc. makeIPv6SubnetFromRange s e acc =
              Some (acc @ map (\<lambda>(b, p). ipv6SubnetString b p) xs))"
proof -
  from makeSubnetFromRange_good[of 128 s e, where 'a = string] assms
  obtain xs where xs: "consecutive 128 s xs (e + 1)" "\<forall>x\<in>set xs. maximalIn 128 s e x"
    "\<forall>acc. makeSubnetFromRange 128 170141183460469231731687303715884105728 Pair s e acc =
        Some (acc @ xs)"
    "\<forall>(emit :: int \<Rightarrow> nat \<Rightarrow> string) acc.
        makeSubnetFromRange 128 170141183460469231731687303715884105728 emit s e acc =
        Some (acc @ map (\<lambda>(b, p). emit b p) xs)"
    by auto
  show ?thesis
    by (rule exI[of _ xs]) (simp add: xs makeIPv6SubnetFromRange_def)
qed

lemma checkedLoop_exhausted:
  "0 \<le> st \<Longrightarrow> 2 ^ (W - i) dvd st \<Longrightarrow> (i \<le> W \<longrightarrow> seg = 2 ^ (W - i)) \<Longrightarrow>
   i \<le> Suc W \<Longrightarrow> Suc (count info) = i \<Longrightarrow>
   checkedLoop W z0 emit info i seg st (st - 1) acc = Some acc"
proof (induction "Suc W - i" arbitrary: i seg info)
  case 0
  then show ?case by (subst checkedLoop.simps) simp
next
  case (Suc k)
  show ?case
  proof (cases "i \<le> W")
    case False
    with Suc.prems show ?thesis by (subst checkedLoop.simps) simp
  next
    case True
    with Suc.prems have seg: "seg = 2 ^ (W - i)" by simp
    hence pos: "0 < seg" by simp
    from Suc.prems seg have dv: "seg dvd st" by simp
    have bs: "tdiv (st + seg - 1) seg * seg = st"
      using roundUp_id[OF pos dv] Suc.prems(1) pos by (simp add: tdiv_nonneg roundUp_def)
    have be: "tdiv (st - 1 + 1) seg * seg - 1 = st - 1"
      using roundDown_id[OF pos, of "st - 1"] dv Suc.prems(1) pos
      by (simp add: tdiv_nonneg roundDown_def)
    have half: "Suc i \<le> W \<longrightarrow> tdiv seg 2 = 2 ^ (W - Suc i)"
      using tdiv_half_pow2[of i W] seg by simp
    have dv': "(2::int) ^ (W - Suc i) dvd st"
    proof -
      have "(2::int) ^ (W - Suc i) dvd 2 ^ (W - i)" by (rule le_imp_power_dvd) simp
      with Suc.prems(2) show ?thesis by (blast intro: dvd_trans)
    qed
    have "checkedLoop W z0 emit info i seg st (st - 1) acc =
          checkedLoop W z0 emit (nextIteration info) (Suc i) (tdiv seg 2) st (st - 1) acc"
      using True bs be by (subst checkedLoop.simps) (simp add: Let_def)
    also have "\<dots> = Some acc"
      using Suc.hyps(2) True Suc.prems(1,5) dv' half
      by (intro Suc.hyps(1)) (simp_all add: nextIteration_def)
    finally show ?thesis .
  qed
qed

lemma checkedLoop_miss:
  assumes "i \<le> W" "0 < z" "0 \<le> s" "0 \<le> e + 1"
    and "\<not> roundUp z s \<le> roundDown z e - 1"
  shows "checkedLoop W z0 emit info i z s e acc =
         checkedLoop W z0 emit (nextIteration info) (Suc i) (tdiv z 2) s e acc"
proof -
  have "tdiv (s + z - 1) z * z = roundUp z s"
    using assms by (simp add: tdiv_nonneg roundUp_def)
  moreover have "tdiv (e + 1) z * z - 1 = roundDown z e - 1"
    using assms by (simp add: tdiv_nonneg roundDown_def)
  ultimately show ?thesis
    using assms(1,5) by (subst checkedLoop.simps) (simp add: Let_def)
qed

lemma checkedLoop_hit:
  assumes i: "i \<le> W" and z: "z = 2 ^ (W - i)" and s: "0 \<le> s" and e: "0 \<le> e + 1"
    and bs: "bs = roundUp z s" and be: "be = roundDown z e - 1" and hit: "bs \<le> be"
    and n: "n = nat ((be + 1 - bs) div z)" and count: "Suc (count info) = i"
    and info: "callStart info = s" "callEnd info = e"
  shows "checkedLoop W z0 emit info i z s e acc =
           Option.bind (if s < bs
                        then checkedLoop W z0 emit (enterCall s (bs - 1)) 1 z0 s (bs - 1) acc
                        else Some acc)
             (\<lambda>a1. if be < e
                    then checkedLoop W z0 emit (enterCall (be + 1) e) 1 z0 (be + 1) e
                           (a1 @ map (\<lambda>b. emit b i) (segBases bs z n))
                    else Some (a1 @ map (\<lambda>b. emit b i) (segBases bs z n)))"
proof -
  have pos: "0 < z" using z by simp
  have e1: "tdiv (s + z - 1) z * z = bs"
    using s pos bs by (simp add: tdiv_nonneg roundUp_def)
  have e2: "tdiv (e + 1) z * z - 1 = be"
    using e pos be by (simp add: tdiv_nonneg roundDown_def)
  have dvbs: "z dvd bs" using bs roundUp_dvd by simp
  have dvbe: "z dvd be + 1" using be roundDown_dvd[of z e] by simp
  have "z dvd be + 1 - bs" using dvbs dvbe by (rule dvd_diff[rotated])
  hence "(be + 1 - bs) div z * z = be + 1 - bs" by simp
  moreover have "0 \<le> (be + 1 - bs) div z" using hit pos by (simp add: pos_imp_zdiv_nonneg_iff)
  ultimately have nz: "bs + int n * z = be + 1" using n by simp
  have run: "pushSegments emit i z be bs (bs + z - 1) a1 =
             Some (be + 1, a1 @ map (\<lambda>b. emit b i) (segBases bs z n))" for a1
    using pushSegments_run[OF pos, of bs n be emit i a1] nz pos by simp
  have sbs: "s \<le> bs" using roundUp_ge[OF pos, of s] bs by simp
  have bs0: "0 \<le> be + 1" using sbs s hit by simp
  have dv2: "(2::int) ^ (W - Suc i) dvd be + 1"
  proof -
    have "(2::int) ^ (W - Suc i) dvd 2 ^ (W - i)" by (rule le_imp_power_dvd) simp
    with dvbe z show ?thesis by (blast intro: dvd_trans)
  qed
  have rest: "checkedLoop W z0 emit (nextIteration info) (Suc i) (tdiv z 2) (be + 1) be a = Some a"
    for a
    using checkedLoop_exhausted[OF bs0 dv2, of "tdiv z 2" "nextIteration info" z0 emit a] z
      tdiv_half_pow2[of i W] i count
    by (simp add: nextIteration_def)
  have bee: "be \<le> e" using roundDown_le[OF pos, of e] be by simp
  have okL: "s < bs \<Longrightarrow> callAllowed info s (bs - 1)"
    unfolding callAllowed_def info using hit bee by simp
  have okR: "be < e \<Longrightarrow> callAllowed info (be + 1) e"
    unfolding callAllowed_def info using hit sbs by simp
  show ?thesis
    apply (subst checkedLoop.simps)
    apply (simp only: i if_True Let_def e1 e2 hit run rest Option.bind.simps prod.case Suc_eq_plus1[symmetric])
    apply (cases "s < bs"; cases "be < e")
    using bee rest okL okR apply (auto split: Option.bind_split)
    done
qed

lemma checkedLoop_level:
  assumes range: "0 \<le> s" "s \<le> e"
    and IH: "\<And>s' e' acc. 0 \<le> s' \<Longrightarrow> s' \<le> e' \<Longrightarrow> e' - s' < e - s \<Longrightarrow>
          checkedLoop W z0 emit (enterCall s' e') 1 z0 s' e' acc =
          subnetLoop W z0 emit 1 z0 s' e' acc"
  shows "i \<le> W \<Longrightarrow> Suc (count info) = i \<Longrightarrow> callStart info = s \<Longrightarrow> callEnd info = e \<Longrightarrow>
         checkedLoop W z0 emit info i (2 ^ (W - i)) s e acc =
         subnetLoop W z0 emit i (2 ^ (W - i)) s e acc"
proof (induction "W - i" arbitrary: i info rule: less_induct)
  case less
  define z :: int where "z = 2 ^ (W - i)"
  have pos: "0 < z" unfolding z_def by simp
  have e0: "0 \<le> e + 1" using range by simp
  show ?case
  proof (cases "roundUp z s \<le> roundDown z e - 1")
    case True
    define bs where "bs = roundUp z s"
    define be where "be = roundDown z e - 1"
    define n where "n = nat ((be + 1 - bs) div z)"
    have hit: "bs \<le> be" using True unfolding bs_def be_def .
    have sbs: "s \<le> bs" unfolding bs_def by (rule roundUp_ge[OF pos])
    have bee: "be \<le> e" unfolding be_def using roundDown_le[OF pos, of e] by simp
    have L: "(if s < bs then checkedLoop W z0 emit (enterCall s (bs - 1)) 1 z0 s (bs - 1) a
              else Some a) =
             (if s < bs then subnetLoop W z0 emit 1 z0 s (bs - 1) a else Some a)" for a
      using IH[of s "bs - 1" a] range hit bee by simp
    have R: "(if be < e then checkedLoop W z0 emit (enterCall (be + 1) e) 1 z0 (be + 1) e a
              else Some a) =
             (if be < e then subnetLoop W z0 emit 1 z0 (be + 1) e a else Some a)" for a
      using IH[of "be + 1" e a] range hit sbs by simp
    have "checkedLoop W z0 emit info i z s e acc =
           Option.bind (if s < bs
                        then checkedLoop W z0 emit (enterCall s (bs - 1)) 1 z0 s (bs - 1) acc
                        else Some acc)
             (\<lambda>a1. if be < e
                    then checkedLoop W z0 emit (enterCall (be + 1) e) 1 z0 (be + 1) e
                           (a1 @ map (\<lambda>b. emit b i) (segBases bs z n))
                    else Some (a1 @ map (\<lambda>b. emit b i) (segBases bs z n)))"
      using less.prems(1) z_def range(1) e0 bs_def be_def hit n_def less.prems(2,3,4)
      by (rule checkedLoop_hit)
    also have "\<dots> =
           Option.bind (if s < bs then subnetLoop W z0 emit 1 z0 s (bs - 1) acc else Some acc)
             (\<lambda>a1. if be < e
                    then subnetLoop W z0 emit 1 z0 (be + 1) e
                           (a1 @ map (\<lambda>b. emit b i) (segBases bs z n))
                    else Some (a1 @ map (\<lambda>b. emit b i) (segBases bs z n)))"
      unfolding L R ..
    also have "\<dots> = subnetLoop W z0 emit i z s e acc"
      using less.prems(1) z_def range(1) e0 bs_def be_def hit n_def
      by (rule subnetLoop_hit[symmetric])
    finally show ?thesis unfolding z_def .
  next
    case False
    have "i \<noteq> W"
    proof
      assume "i = W"
      hence "z = 1" unfolding z_def by simp
      with False range show False by (simp add: roundUp_def roundDown_def)
    qed
    with less.prems have lt: "Suc i \<le> W" by simp
    have "checkedLoop W z0 emit info i z s e acc =
          checkedLoop W z0 emit (nextIteration info) (Suc i) (tdiv z 2) s e acc"
      using less.prems(1) pos range(1) e0 False by (rule checkedLoop_miss)
    also have "\<dots> = checkedLoop W z0 emit (nextIteration info) (Suc i) (2 ^ (W - Suc i)) s e acc"
      unfolding z_def tdiv_half_pow2[OF lt] ..
    also have "\<dots> = subnetLoop W z0 emit (Suc i) (2 ^ (W - Suc i)) s e acc"
      using lt less.prems(2,3,4) by (intro less.hyps) (simp_all add: nextIteration_def)
    also have "\<dots> = subnetLoop W z0 emit (Suc i) (tdiv z 2) s e acc"
      unfolding z_def tdiv_half_pow2[OF lt] ..
    also have "\<dots> = subnetLoop W z0 emit i z s e acc"
      using less.prems(1) pos range(1) e0 False by (rule subnetLoop_miss[symmetric])
    finally show ?thesis unfolding z_def .
  qed
qed

lemma checkedMakeSubnetFromRange_eq:
  assumes W: "1 \<le> W"
  shows "0 \<le> s \<Longrightarrow> s \<le> e \<Longrightarrow>
         checkedMakeSubnetFromRange W (2 ^ (W - 1)) emit s e acc =
         makeSubnetFromRange W (2 ^ (W - 1)) emit s e acc"
proof (induction "nat (e - s)" arbitrary: s e acc rule: less_induct)
  case less
  have IH: "checkedLoop W (2 ^ (W - 1)) emit (enterCall s' e') 1 (2 ^ (W - 1)) s' e' a =
            subnetLoop W (2 ^ (W - 1)) emit 1 (2 ^ (W - 1)) s' e' a"
    if "0 \<le> s'" "s' \<le> e'" "e' - s' < e - s" for s' e' a
    using less.hyps[of e' s' a] that
    unfolding checkedMakeSubnetFromRange_def makeSubnetFromRange_def by simp
  have "checkedLoop W (2 ^ (W - 1)) emit (enterCall s e) 1 (2 ^ (W - 1)) s e acc =
        subnetLoop W (2 ^ (W - 1)) emit 1 (2 ^ (W - 1)) s e acc"
    using checkedLoop_level[OF less.prems IH, of 1 "enterCall s e" acc] W
    by (simp add: enterCall_def)
  thus ?case unfolding checkedMakeSubnetFromRange_def makeSubnetFromRange_def .
qed

lemma splitStr_nonempty: "splitStr c s \<noteq> []"
  by (induction s) (auto split: list.splits)

lemma splitStr_no_sep: "c \<notin> set s \<Longrightarrow> splitStr c s = [s]"
  by (induction s) auto

lemma splitStr_append: "c \<notin> set a \<Longrightarrow> splitStr c (a @ c # rest) = a # splitStr c rest"
  by (induction a) auto

lemma joinStr_Cons: "gs \<noteq> [] \<Longrightarrow> joinStr c (g # gs) = g @ c # joinStr c gs"
  by (cases gs) simp_all

lemma joinStr_splitStr: "joinStr c (splitStr c s) = s"
proof (induction s)
  case Nil
  then show ?case by simp
next
  case (Cons x s)
  show ?case
  proof (cases "x = c")
    case True
    with Cons show ?thesis by (simp add: joinStr_Cons splitStr_nonempty)
  next
    case False
    obtain p ps where ps: "splitStr c s = p # ps"
      using splitStr_nonempty[of c s] by (cases "splitStr c s") auto
    with Cons False show ?thesis by (cases ps) auto
  qed
qed

lemma splitStr_pieces: "g \<in> set (splitStr c s) \<Longrightarrow> c \<notin> set g"
proof (induction s arbitrary: g)
  case Nil
  then show ?case by simp
next
  case (Cons x s)
  obtain p ps where ps: "splitStr c s = p # ps"
    using splitStr_nonempty[of c s] by (cases "splitStr c s") auto
  with Cons show ?case by (auto split: if_splits)
qed

lemma splitStr_joinStr:
  "gs \<noteq> [] \<Longrightarrow> \<forall>g\<in>set gs. c \<notin> set g \<Longrightarrow> splitStr c (joinStr c gs) = gs"
proof (induction gs)
  case Nil
  then show ?case by simp
next
  case (Cons g gs)
  show ?case
  proof (cases gs)
    case Nil
    with Cons.prems show ?thesis by (simp add: splitStr_no_sep)
  next
    case (Cons h hs)
    with Cons.prems Cons.IH show ?thesis by (simp add: splitStr_append)
  qed
qed

lemma list4: "length xs = 4 \<longleftrightarrow> (\<exists>a b c d. xs = [a, b, c, d])"
  by (auto simp: length_Suc_conv eval_nat_numeral)

lemma list8: "length xs = 8 \<longleftrightarrow> (\<exists>a b c d e f g h. xs = [a, b, c, d, e, f, g, h])"
  by (auto simp: length_Suc_conv eval_nat_numeral)

lemma octet_ok:
  "\<not> (jsge p (Num 256) \<or> jslt p (Num 0)) \<longleftrightarrow> p = NaN \<or> (\<exists>n. p = Num n \<and> 0 \<le> n \<and> n < 256)"
  by (cases p) auto

lemma isIPv4Addr_iff:
  "isIPv4Addr str \<longleftrightarrow>
     (\<exists>a b c d. splitStr CHR ''.'' str = [a, b, c, d] \<and>
        (\<forall>piece\<in>{a, b, c, d}. parseInt10 piece = NaN \<or>
            (\<exists>n. parseInt10 piece = Num n \<and> 0 \<le> n \<and> n < 256)))"
  unfolding isIPv4Addr_def Let_def octet_ok
  by (auto simp: list4)

lemma isIPv4Addr_value:
  assumes "isIPv4Addr str"
  shows "toIPv4AddrInteger str = NaN \<or>
         (\<exists>n. toIPv4AddrInteger str = Num n \<and> 0 \<le> n \<and> n < 2 ^ 32)"
proof -
  from assms obtain a b c d where sp: "splitStr CHR ''.'' str = [a, b, c, d]"
    and ok: "\<forall>piece\<in>{a, b, c, d}. parseInt10 piece = NaN \<or>
            (\<exists>n. parseInt10 piece = Num n \<and> 0 \<le> n \<and> n < 256)"
    unfolding isIPv4Addr_iff by blast
  show ?thesis
  proof (cases "parseInt10 a = NaN \<or> parseInt10 b = NaN \<or> parseInt10 c = NaN \<or> parseInt10 d = NaN")
    case True
    then show ?thesis
      unfolding toIPv4AddrInteger_def Let_def sp parseIntAt_def
      by (cases "parseInt10 a"; cases "parseInt10 b"; cases "parseInt10 c"; cases "parseInt10 d")
         simp_all
  next
    case False
    with ok obtain na nb nc nd where n: "parseInt10 a = Num na" "parseInt10 b = Num nb"
      "parseInt10 c = Num nc" "parseInt10 d = Num nd"
      "0 \<le> na" "na < 256" "0 \<le> nb" "nb < 256" "0 \<le> nc" "nc < 256" "0 \<le> nd" "nd < 256"
      by auto
    then show ?thesis
      unfolding toIPv4AddrInteger_def Let_def sp parseIntAt_def by simp
  qed
qed

lemma makeIPv4SubnetFromRange_returns:
  assumes "a = NaN \<or> (\<exists>n. a = Num n \<and> 0 \<le> n)" "\<not> jsgt a b"
  shows "\<exists>out. makeIPv4SubnetFromRange a b [] = Some out"
proof (cases a)
  case NaN
  then show ?thesis by (simp add: makeIPv4SubnetFromRange_def)
next
  case (Num s)
  show ?thesis
  proof (cases b)
    case NaN
    with Num show ?thesis by (simp add: makeIPv4SubnetFromRange_def)
  next
    case (Num e)
    with assms \<open>a = Num s\<close> have "0 \<le> s" "s \<le> e" by auto
    from makeIPv4SubnetFromRange_good[OF this] Num \<open>a = Num s\<close> show ?thesis by blast
  qed
qed

lemma IPv4Range_set_iprange_returns:
  assumes arr: "rangeArray str = a0 # a1 # rest"
    and ok: "isIPv4Addr a0" "isIPv4Addr a1"
    and le: "\<not> jsgt (toIPv4AddrInteger a0) (toIPv4AddrInteger a1)"
  shows "\<exists>array. IPv4Range_set_iprange str this =
           Some (Returns (this\<lparr>intStartAddr := Some (toIPv4AddrInteger a0),
                               intEndAddr := Some (toIPv4AddrInteger a1),
                               arraySubnet := Some array\<rparr>))"
proof -
  from isIPv4Addr_value[OF ok(1)]
  have "toIPv4AddrInteger a0 = NaN \<or> (\<exists>n. toIPv4AddrInteger a0 = Num n \<and> 0 \<le> n)" by auto
  from makeIPv4SubnetFromRange_returns[OF this le] obtain out
    where out: "makeIPv4SubnetFromRange (toIPv4AddrInteger a0) (toIPv4AddrInteger a1) [] = Some out" ..
  show ?thesis
    by (rule exI[of _ out]) (simp add: IPv4Range_set_iprange_def arr ok le out Let_def)
qed

lemma char_eq_nat: "(c = d) \<longleftrightarrow> ((of_char c :: nat) = of_char d)"
  by (simp add: of_char_eq_iff)

lemma nat_between:
  "(48 \<le> (n::nat) \<and> n \<le> 57) \<longleftrightarrow> n \<in> {48, 49, 50, 51, 52, 53, 54, 55, 56, 57}"
  by (simp only: insert_iff empty_iff) arith

lemma nat_between2:
  "(97 \<le> (n::nat) \<and> n \<le> 102) \<longleftrightarrow> n \<in> {97, 98, 99, 100, 101, 102}"
  by (simp only: insert_iff empty_iff) arith

lemma isLowerHex_iff: "isLowerHex c \<longleftrightarrow> c \<in> set ''0123456789abcdef''"
  unfolding isLowerHex_def by (simp add: char_eq_nat nat_between nat_between2)

lemma isDigit_iff: "isDigit c \<longleftrightarrow> c \<in> set ''0123456789''"
  unfolding isDigit_def by (simp add: char_eq_nat nat_between) 

lemma lowerHex_facts:
  assumes "isLowerHex c"
  shows "\<not> isWhiteSpace c" "\<exists>d. hexVal c = Some d \<and> d < 16" "c \<noteq> CHR ''-''" "c \<noteq> CHR '':''"
  using assms unfolding isLowerHex_iff isWhiteSpace_def hexVal_def by auto

lemma hextet_ok:
  "(case g of [c1, c2, c3, c4] \<Rightarrow> P c1 \<and> P c2 \<and> P c3 \<and> P c4 | _ \<Rightarrow> False) \<longleftrightarrow>
   length g = 4 \<and> (\<forall>c\<in>set g. P c)"
  by (auto simp: list4 split: list.splits)

lemma isIPv6Addr_iff:
  "isIPv6Addr str \<longleftrightarrow>
     length (splitStr CHR '':'' str) = 8 \<and>
     (\<forall>g\<in>set (splitStr CHR '':'' str). length g = 4 \<and> (\<forall>c\<in>set g. isLowerHex c))"
  unfolding isIPv6Addr_def Let_def hextet_ok by (auto simp: list_all_iff)

lemma BigInt0x_hextet:
  assumes "length g = 4" "\<forall>c\<in>set g. isLowerHex c"
  shows "BigInt0x g = Inr (hextetValue g)" "0 \<le> hextetValue g" "hextetValue g < 65536"
proof -
  from assms(1) obtain c1 c2 c3 c4 where g: "g = [c1, c2, c3, c4]" unfolding list4 by blast
  with assms(2) have hx: "isLowerHex c1" "isLowerHex c2" "isLowerHex c3" "isLowerHex c4" by simp_all
  from lowerHex_facts(2)[OF hx(1)] lowerHex_facts(2)[OF hx(2)]
       lowerHex_facts(2)[OF hx(3)] lowerHex_facts(2)[OF hx(4)]
  obtain d1 d2 d3 d4 where d: "hexVal c1 = Some d1" "hexVal c2 = Some d2" "hexVal c3 = Some d3"
    "hexVal c4 = Some d4" "d1 < 16" "d2 < 16" "d3 < 16" "d4 < 16" by blast
  have "rev (dropWhile isWhiteSpace (rev g)) = g"
    unfolding g using lowerHex_facts(1)[OF hx(4)] by simp
  thus "BigInt0x g = Inr (hextetValue g)"
    unfolding BigInt0x_def hextetValue_def Let_def by (simp add: g d)
  show "0 \<le> hextetValue g" unfolding hextetValue_def by simp
  show "hextetValue g < 65536" unfolding hextetValue_def hexValue_def g using d by simp
qed

lemma toIPv6AddrInteger_groups:
  assumes sp: "splitStr CHR '':'' str = [g0, g1, g2, g3, g4, g5, g6, g7]"
    and ok: "\<forall>g\<in>set [g0, g1, g2, g3, g4, g5, g6, g7]. length g = 4 \<and> (\<forall>c\<in>set g. isLowerHex c)"
  shows "toIPv6AddrInteger str =
           Inr (hextetValue g0 * 5192296858534827628530496329220096 +
                hextetValue g1 * 79228162514264337593543950336 +
                hextetValue g2 * 1208925819614629174706176 +
                hextetValue g3 * 18446744073709551616 +
                hextetValue g4 * 281474976710656 +
                hextetValue g5 * 4294967296 +
                hextetValue g6 * 65536 +
                hextetValue g7)"
proof -
  have b: "BigInt0x g0 = Inr (hextetValue g0)" "BigInt0x g1 = Inr (hextetValue g1)"
    "BigInt0x g2 = Inr (hextetValue g2)" "BigInt0x g3 = Inr (hextetValue g3)"
    "BigInt0x g4 = Inr (hextetValue g4)" "BigInt0x g5 = Inr (hextetValue g5)"
    "BigInt0x g6 = Inr (hextetValue g6)" "BigInt0x g7 = Inr (hextetValue g7)"
    using ok by (simp_all add: BigInt0x_hextet(1))
  show ?thesis
    unfolding toIPv6AddrInteger_def Let_def sp BigIntAt_def bindE_def by (simp add: b)
qed

lemma isIPv6Addr_value:
  assumes "isIPv6Addr str"
  shows "\<exists>n. toIPv6AddrInteger str = Inr n \<and> 0 \<le> n"
proof -
  from assms obtain g0 g1 g2 g3 g4 g5 g6 g7
    where sp: "splitStr CHR '':'' str = [g0, g1, g2, g3, g4, g5, g6, g7]"
    unfolding isIPv6Addr_iff list8 by blast
  with assms have ok: "\<forall>g\<in>set [g0, g1, g2, g3, g4, g5, g6, g7].
      length g = 4 \<and> (\<forall>c\<in>set g. isLowerHex c)"
    unfolding isIPv6Addr_iff by simp
  have nn: "0 \<le> hextetValue g" for g unfolding hextetValue_def by simp
  have "0 \<le> hextetValue g0 * 5192296858534827628530496329220096 +
                hextetValue g1 * 79228162514264337593543950336 +
                hextetValue g2 * 1208925819614629174706176 +
                hextetValue g3 * 18446744073709551616 +
                hextetValue g4 * 281474976710656 +
                hextetValue g5 * 4294967296 +
                hextetValue g6 * 65536 +
                hextetValue g7"
    using nn[of g0] nn[of g1] nn[of g2] nn[of g3] nn[of g4] nn[of g5] nn[of g6] nn[of g7]
    by linarith
  thus ?thesis unfolding toIPv6AddrInteger_groups[OF sp ok] by simp
qed

lemma IPv6Range_set_iprange_returns:
  assumes arr: "rangeArray str = a0 # a1 # rest"
    and ok: "isIPv6Addr a0" "isIPv6Addr a1"
    and v: "toIPv6AddrInteger a0 = Inr s" "toIPv6AddrInteger a1 = Inr e"
    and le: "s \<le> e"
  shows "\<exists>array. IPv6Range_set_iprange str this =
           Some (Returns (this\<lparr>intStartAddr := Some s, intEndAddr := Some e,
                               arraySubnet := Some array\<rparr>))"
proof -
  from isIPv6Addr_value[OF ok(1)] v(1) have "0 \<le> s" by simp
  from makeIPv6SubnetFromRange_good[OF this le] obtain out
    where out: "makeIPv6SubnetFromRange s e [] = Some out" by blast
  show ?thesis
    by (rule exI[of _ out])
       (simp add: IPv6Range_set_iprange_def arr ok v le out Let_def not_less)
qed

lemma set_joinStr: "set (joinStr c gs) \<subseteq> insert c (\<Union>g\<in>set gs. set g)"
  by (induction c gs rule: joinStr.induct) auto

lemma rangeArray_three:
  assumes "CHR ''-'' \<notin> set a" "CHR ''-'' \<notin> set b"
  shows "rangeArray (a @ ''-'' @ b @ ''-'' @ c) = a # b # splitStr CHR ''-'' c"
    and "rangeArray (a @ ''-'' @ b) = [a, b]"
  using assms by (simp_all add: rangeArray_def splitStr_append splitStr_no_sep)

lemma rangeArray_single: "CHR ''-'' \<notin> set str \<Longrightarrow> rangeArray str = [str, str]"
  by (simp add: rangeArray_def)

lemma and_255: "and (x::int) 255 = x mod 256"
proof -
  have "and x (mask 8) = x mod 2 ^ 8"
    by (simp only: take_bit_eq_mask[symmetric] take_bit_eq_mod)
  moreover have "(mask 8 :: int) = 255" by (simp add: mask_eq_exp_minus_1)
  ultimately show ?thesis by simp
qed

lemma and_65535: "and (x::int) 65535 = x mod 65536"
proof -
  have "and x (mask 16) = x mod 2 ^ 16"
    by (simp only: take_bit_eq_mask[symmetric] take_bit_eq_mod)
  moreover have "(mask 16 :: int) = 65535" by (simp add: mask_eq_exp_minus_1)
  ultimately show ?thesis by simp
qed

lemma toInt32_mod: "toInt32 x mod 256 = toUint32 x mod 256"
proof -
  have "(u - 4294967296) mod 256 = u mod (256::int)" for u
  proof -
    have "u - 4294967296 = u + (- 16777216) * 256" by simp
    thus ?thesis by (simp only: mod_mult_self1)
  qed
  thus ?thesis unfolding toInt32_def Let_def by simp
qed

lemma band_255: "band x (Num 255) = Num (toUint32 x mod 256)"
proof -
  have "toInt32 (Num 255) = 255" by (simp add: toInt32_def)
  thus ?thesis unfolding band_def by (simp add: and_255 toInt32_mod)
qed

lemma toUint32_range: "0 \<le> toUint32 x" "toUint32 x < 4294967296"
  by (cases x; simp)+

lemma ushr_value: "ushr x k = Num (toUint32 x div 2 ^ k)"
  unfolding ushr_def by (simp add: drop_bit_eq_div)

lemma toUint32_ushr: "toUint32 (ushr x k) = toUint32 x div 2 ^ k"
proof -
  have "0 \<le> toUint32 x div 2 ^ k"
    using toUint32_range(1)[of x] by (simp add: pos_imp_zdiv_nonneg_iff)
  moreover have "toUint32 x div 2 ^ k \<le> toUint32 x div 1"
    using toUint32_range(1)[of x] by (intro zdiv_mono2) simp_all
  ultimately have "(toUint32 x div 2 ^ k) mod 2 ^ 32 = toUint32 x div 2 ^ k"
    using toUint32_range(2)[of x] by simp
  thus ?thesis unfolding ushr_value by simp
qed

lemma toIPv4AddrString_octets:
  "toIPv4AddrString x =
     decimal (nat ((toUint32 x div 16777216) mod 256)) @ ''.'' @
     decimal (nat ((toUint32 x div 65536) mod 256)) @ ''.'' @
     decimal (nat ((toUint32 x div 256) mod 256)) @ ''.'' @
     decimal (nat (toUint32 x mod 256))"
  unfolding toIPv4AddrString_def band_255 toUint32_ushr
  by (simp add: toString10_def not_less)

lemma of_char_digitChar: "d < 10 \<Longrightarrow> (of_char (digitChar d) :: nat) = 48 + d"
  unfolding digitChar_def by simp

lemma digitChar_digit:
  assumes "d < 10"
  shows "isDigit (digitChar d)" "digitVal (digitChar d) = d"
  unfolding isDigit_def digitVal_def of_char_digitChar[OF assms] using assms by simp_all

lemma digitChar_digitVal: "isDigit c \<Longrightarrow> digitChar (digitVal c) = c"
proof -
  assume c: "isDigit c"
  hence "digitVal c < 10" unfolding isDigit_def digitVal_def by arith
  hence "(of_char (digitChar (digitVal c)) :: nat) = 48 + digitVal c" by (rule of_char_digitChar)
  also have "\<dots> = of_char c" using c unfolding isDigit_def digitVal_def by simp
  finally show ?thesis by (simp only: of_char_eq_iff)
qed

lemma decimal_digits: "list_all isDigit (decimal n)"
proof (induction n rule: decimal.induct)
  case (1 n)
  show ?case
  proof (cases "n < 10")
    case True
    then show ?thesis by (subst decimal.simps) (simp add: digitChar_digit)
  next
    case False
    with 1 show ?thesis by (subst decimal.simps) (simp add: digitChar_digit)
  qed
qed

lemma decimal_nonempty: "decimal n \<noteq> []"
  by (subst decimal.simps) simp

lemma decimalValue_snoc: "decimalValue (ds @ [c]) = 10 * decimalValue ds + digitVal c"
  unfolding decimalValue_def by simp

lemma decimalValue_decimal: "decimalValue (decimal n) = n"
proof (induction n rule: decimal.induct)
  case (1 n)
  show ?case
  proof (cases "n < 10")
    case True
    then show ?thesis by (subst decimal.simps) (simp add: decimalValue_def digitChar_digit)
  next
    case False
    with 1 show ?thesis
      by (subst decimal.simps) (simp add: decimalValue_snoc digitChar_digit)
  qed
qed

lemma isDigit_facts:
  assumes "isDigit c"
  shows "\<not> isWhiteSpace c" "c \<noteq> CHR ''-''" "c \<noteq> CHR ''+''" "c \<noteq> CHR ''.''" "digitVal c < 10"
proof -
  have n: "48 \<le> (of_char c :: nat)" "(of_char c :: nat) \<le> 57" using assms unfolding isDigit_def by simp_all
  show "\<not> isWhiteSpace c" unfolding isWhiteSpace_def using n by auto
  show "digitVal c < 10" unfolding digitVal_def using n by arith
  have "(of_char c :: nat) \<noteq> of_char CHR ''-''" using n by simp
  thus "c \<noteq> CHR ''-''" by auto
  have "(of_char c :: nat) \<noteq> of_char CHR ''+''" using n by simp
  thus "c \<noteq> CHR ''+''" by auto
  have "(of_char c :: nat) \<noteq> of_char CHR ''.''" using n by simp
  thus "c \<noteq> CHR ''.''" by auto
qed

lemma parseInt10_digits:
  assumes "ds \<noteq> []" "list_all isDigit ds"
  shows "parseInt10 ds = Num (int (decimalValue ds))"
proof -
  from assms obtain c cs where ds: "ds = c # cs" by (cases ds) auto
  with assms(2) have c: "isDigit c" by simp
  have "dropWhile isWhiteSpace ds = ds" unfolding ds using isDigit_facts(1)[OF c] by simp
  moreover have "takeWhile isDigit ds = ds" using assms(2) by (simp add: list_all_iff)
  ultimately show ?thesis
    unfolding parseInt10_def Let_def using isDigit_facts(2,3)[OF c] assms(1) by (simp add: ds)
qed

lemma digits_no_dot: "list_all isDigit ds \<Longrightarrow> CHR ''.'' \<notin> set ds"
  using isDigit_facts(4) by (auto simp: list_all_iff)

lemma decimalValue_positive:
  "ds \<noteq> [] \<Longrightarrow> list_all isDigit ds \<Longrightarrow> hd ds \<noteq> CHR ''0'' \<Longrightarrow> 0 < decimalValue ds"
proof (induction ds rule: rev_induct)
  case Nil
  then show ?case by simp
next
  case (snoc c ds)
  show ?case
  proof (cases "ds = []")
    case True
    with snoc.prems have "isDigit c" "c \<noteq> CHR ''0''" by simp_all
    hence "48 \<le> (of_char c :: nat)" "(of_char c :: nat) \<noteq> of_char CHR ''0''"
      unfolding isDigit_def by (simp_all only: of_char_eq_iff) simp
    hence "0 < digitVal c" unfolding digitVal_def by simp
    with True show ?thesis by (simp add: decimalValue_def)
  next
    case False
    with snoc have "0 < decimalValue ds" by simp
    thus ?thesis by (simp add: decimalValue_snoc)
  qed
qed

lemma decimal_decimalValue:
  "ds \<noteq> [] \<Longrightarrow> list_all isDigit ds \<Longrightarrow> (hd ds = CHR ''0'' \<longrightarrow> ds = ''0'') \<Longrightarrow>
   decimal (decimalValue ds) = ds"
proof (induction ds rule: rev_induct)
  case Nil
  then show ?case by simp
next
  case (snoc c ds)
  from snoc.prems have c: "isDigit c" by simp
  show ?case
  proof (cases "ds = []")
    case True
    have "decimalValue [c] = digitVal c" by (simp add: decimalValue_def)
    with True isDigit_facts(5)[OF c] digitChar_digitVal[OF c] show ?thesis
      by (subst decimal.simps) simp
  next
    case False
    with snoc.prems have nz: "hd ds \<noteq> CHR ''0''" by (cases ds) auto
    from snoc.prems False have dg: "list_all isDigit ds" by simp
    have pos: "0 < decimalValue ds" by (rule decimalValue_positive[OF False dg nz])
    have IH: "decimal (decimalValue ds) = ds" using snoc.IH False dg nz by simp
    have v: "decimalValue (ds @ [c]) = 10 * decimalValue ds + digitVal c"
      by (rule decimalValue_snoc)
    have "\<not> 10 * decimalValue ds + digitVal c < 10" using pos by simp
    moreover have "(10 * decimalValue ds + digitVal c) div 10 = decimalValue ds"
      using isDigit_facts(5)[OF c] by simp
    moreover have "(10 * decimalValue ds + digitVal c) mod 10 = digitVal c"
      using isDigit_facts(5)[OF c] by simp
    ultimately show ?thesis
      unfolding v by (subst decimal.simps) (simp add: IH digitChar_digitVal[OF c])
  qed
qed

lemma div_mod_unique:
  fixes a b q r :: int
  assumes "a = q * b + r" "0 \<le> r" "r < b"
  shows "a div b = q" "a mod b = r"
  using assms by simp_all

lemma ipv4_digits_sum:
  assumes "0 \<le> a" "a < 4294967296"
  shows "(a div 16777216 mod 256) * 16777216 + (a div 65536 mod 256) * 65536 +
         (a div 256 mod 256) * 256 + a mod 256 = (a::int)"
proof -
  define a1 where "a1 = a div 256"
  define a2 where "a2 = a1 div 256"
  define a3 where "a3 = a2 div 256"
  define r0 where "r0 = a mod 256"
  define r1 where "r1 = a1 mod 256"
  define r2 where "r2 = a2 mod 256"
  have e1: "a div 65536 = a2" unfolding a2_def a1_def using zdiv_zmult2_eq[of 256 a 256] by simp
  have e2: "a div 16777216 = a3"
    unfolding a3_def e1[symmetric] using zdiv_zmult2_eq[of 256 a 65536] by simp
  have d0: "a = a1 * 256 + r0" unfolding a1_def r0_def by simp
  have d1: "a1 = a2 * 256 + r1" unfolding a2_def r1_def by simp
  have d2: "a2 = a3 * 256 + r2" unfolding a3_def r2_def by simp
  have "0 \<le> a3" "a3 < 256" unfolding e2[symmetric] using assms by simp_all
  hence d3: "a3 mod 256 = a3" by simp
  have "a3 * 16777216 + r2 * 65536 + r1 * 256 + r0 = a"
    using d0 d1 d2 by simp
  thus ?thesis
    unfolding e1 e2 d3 r0_def r1_def r2_def a1_def .
qed

lemma ipv4_digits_extract:
  fixes v1 v2 v3 v4 :: int
  assumes "0 \<le> v1" "v1 < 256" "0 \<le> v2" "v2 < 256" "0 \<le> v3" "v3 < 256" "0 \<le> v4" "v4 < 256"
    and n: "n = v1 * 16777216 + v2 * 65536 + v3 * 256 + v4"
  shows "n div 16777216 mod 256 = v1" "n div 65536 mod 256 = v2" "n div 256 mod 256 = v3"
    "n mod 256 = v4" "0 \<le> n" "n < 4294967296"
proof -
  have "n div 16777216 = v1"
  proof (rule div_mod_unique(1))
    show "n = v1 * 16777216 + (v2 * 65536 + v3 * 256 + v4)" using n by simp
    show "0 \<le> v2 * 65536 + v3 * 256 + v4" using assms by simp
    show "v2 * 65536 + v3 * 256 + v4 < 16777216" using assms by simp
  qed
  thus "n div 16777216 mod 256 = v1" using assms by simp
  have "n div 65536 = v1 * 256 + v2"
  proof (rule div_mod_unique(1))
    show "n = (v1 * 256 + v2) * 65536 + (v3 * 256 + v4)" using n by simp
    show "0 \<le> v3 * 256 + v4" using assms by simp
    show "v3 * 256 + v4 < 65536" using assms by simp
  qed
  moreover have "(v1 * 256 + v2) mod 256 = v2" using assms by simp
  ultimately show "n div 65536 mod 256 = v2" by simp
  have "n div 256 = v1 * 65536 + v2 * 256 + v3"
  proof (rule div_mod_unique(1))
    show "n = (v1 * 65536 + v2 * 256 + v3) * 256 + v4" using n by simp
    show "0 \<le> v4" "v4 < 256" using assms by simp_all
  qed
  moreover have "(v1 * 65536 + v2 * 256 + v3) mod 256 = v3"
  proof (rule div_mod_unique(2))
    show "v1 * 65536 + v2 * 256 + v3 = (v1 * 256 + v2) * 256 + v3" by simp
    show "0 \<le> v3" "v3 < 256" using assms by simp_all
  qed
  ultimately show "n div 256 mod 256 = v3" by simp
  show "n mod 256 = v4"
  proof (rule div_mod_unique(2))
    show "n = (v1 * 65536 + v2 * 256 + v3) * 256 + v4" using n by simp
    show "0 \<le> v4" "v4 < 256" using assms by simp_all
  qed
  show "0 \<le> n" "n < 4294967296" using assms by simp_all
qed

lemma toIPv4AddrInteger_octets:
  assumes "o1 \<noteq> []" "list_all isDigit o1" "o2 \<noteq> []" "list_all isDigit o2"
    "o3 \<noteq> []" "list_all isDigit o3" "o4 \<noteq> []" "list_all isDigit o4"
  shows "toIPv4AddrInteger (o1 @ ''.'' @ o2 @ ''.'' @ o3 @ ''.'' @ o4) =
           Num (int (decimalValue o1) * 16777216 + int (decimalValue o2) * 65536 +
                int (decimalValue o3) * 256 + int (decimalValue o4))"
proof -
  have "splitStr CHR ''.'' (o1 @ ''.'' @ o2 @ ''.'' @ o3 @ ''.'' @ o4) = [o1, o2, o3, o4]"
    using assms by (simp add: splitStr_append splitStr_no_sep digits_no_dot)
  thus ?thesis
    unfolding toIPv4AddrInteger_def Let_def parseIntAt_def
    using assms by (simp add: parseInt10_digits)
qed

lemma ipv4_parse_format:
  assumes "0 \<le> a" "a < 2 ^ 32"
  shows "toIPv4AddrInteger (toIPv4AddrString (Num a)) = Num a"
proof -
  define q1 where "q1 = nat (a div 16777216 mod 256)"
  define q2 where "q2 = nat (a div 65536 mod 256)"
  define q3 where "q3 = nat (a div 256 mod 256)"
  define q4 where "q4 = nat (a mod 256)"
  have u: "toUint32 (Num a) = a" using assms by simp
  have i: "int q1 = a div 16777216 mod 256" "int q2 = a div 65536 mod 256"
    "int q3 = a div 256 mod 256" "int q4 = a mod 256"
    unfolding q1_def q2_def q3_def q4_def by simp_all
  have a2: "a < 4294967296" using assms(2) by simp
  have "toIPv4AddrString (Num a) =
        decimal q1 @ ''.'' @ decimal q2 @ ''.'' @ decimal q3 @ ''.'' @ decimal q4"
    unfolding toIPv4AddrString_octets u q1_def q2_def q3_def q4_def ..
  also have "toIPv4AddrInteger \<dots> =
         Num (int (decimalValue (decimal q1)) * 16777216 + int (decimalValue (decimal q2)) * 65536 +
              int (decimalValue (decimal q3)) * 256 + int (decimalValue (decimal q4)))"
    by (rule toIPv4AddrInteger_octets) (rule decimal_nonempty decimal_digits)+
  also have "\<dots> = Num ((a div 16777216 mod 256) * 16777216 + (a div 65536 mod 256) * 65536 +
         (a div 256 mod 256) * 256 + a mod 256)"
    by (simp only: decimalValue_decimal i)
  also have "\<dots> = Num a" by (simp only: ipv4_digits_sum[OF assms(1) a2])
  finally show ?thesis .
qed

lemma ipv4_format_parse:
  assumes "canonicalOctet o1" "canonicalOctet o2" "canonicalOctet o3" "canonicalOctet o4"
  shows "toIPv4AddrString (toIPv4AddrInteger (o1 @ ''.'' @ o2 @ ''.'' @ o3 @ ''.'' @ o4)) =
         o1 @ ''.'' @ o2 @ ''.'' @ o3 @ ''.'' @ o4"
proof -
  define n where "n = int (decimalValue o1) * 16777216 + int (decimalValue o2) * 65536 +
                int (decimalValue o3) * 256 + int (decimalValue o4)"
  have p: "toIPv4AddrInteger (o1 @ ''.'' @ o2 @ ''.'' @ o3 @ ''.'' @ o4) = Num n"
    unfolding n_def using assms by (intro toIPv4AddrInteger_octets) (simp_all add: canonicalOctet_def)
  have b: "0 \<le> int (decimalValue o1)" "int (decimalValue o1) < 256"
       "0 \<le> int (decimalValue o2)" "int (decimalValue o2) < 256"
       "0 \<le> int (decimalValue o3)" "int (decimalValue o3) < 256"
       "0 \<le> int (decimalValue o4)" "int (decimalValue o4) < 256"
    using assms unfolding canonicalOctet_def by simp_all
  note x = ipv4_digits_extract[OF b n_def]
  have u: "toUint32 (Num n) = n" using x(5,6) by simp
  have d: "decimal (decimalValue o1) = o1" "decimal (decimalValue o2) = o2"
    "decimal (decimalValue o3) = o3" "decimal (decimalValue o4) = o4"
    using assms unfolding canonicalOctet_def by (simp_all add: decimal_decimalValue)
  show ?thesis unfolding p toIPv4AddrString_octets u x(1-4) by (simp add: d)
qed

lemma ipv6_digits_sum:
  assumes "0 \<le> a" "a < 340282366920938463463374607431768211456"
  shows "(a div 5192296858534827628530496329220096 mod 65536) * 5192296858534827628530496329220096 +
         (a div 79228162514264337593543950336 mod 65536) * 79228162514264337593543950336 +
         (a div 1208925819614629174706176 mod 65536) * 1208925819614629174706176 +
         (a div 18446744073709551616 mod 65536) * 18446744073709551616 +
         (a div 281474976710656 mod 65536) * 281474976710656 +
         (a div 4294967296 mod 65536) * 4294967296 +
         (a div 65536 mod 65536) * 65536 +
         a mod 65536 = (a::int)"
proof -
  define a1 where "a1 = a div 65536"
  define a2 where "a2 = a1 div 65536"
  define a3 where "a3 = a2 div 65536"
  define a4 where "a4 = a3 div 65536"
  define a5 where "a5 = a4 div 65536"
  define a6 where "a6 = a5 div 65536"
  define a7 where "a7 = a6 div 65536"
  define r0 where "r0 = a mod 65536"
  define r1 where "r1 = a1 mod 65536"
  define r2 where "r2 = a2 mod 65536"
  define r3 where "r3 = a3 mod 65536"
  define r4 where "r4 = a4 mod 65536"
  define r5 where "r5 = a5 mod 65536"
  define r6 where "r6 = a6 mod 65536"
  have e1: "a div 65536 = a1" unfolding a1_def ..
  have e2: "a div 4294967296 = a2"
    unfolding a2_def e1[symmetric] using zdiv_zmult2_eq[of 65536 a 65536] by simp
  have e3: "a div 281474976710656 = a3"
    unfolding a3_def e2[symmetric] using zdiv_zmult2_eq[of 65536 a 4294967296] by simp
  have e4: "a div 18446744073709551616 = a4"
    unfolding a4_def e3[symmetric] using zdiv_zmult2_eq[of 65536 a 281474976710656] by simp
  have e5: "a div 1208925819614629174706176 = a5"
    unfolding a5_def e4[symmetric] using zdiv_zmult2_eq[of 65536 a 18446744073709551616] by simp
  have e6: "a div 79228162514264337593543950336 = a6"
    unfolding a6_def e5[symmetric] using zdiv_zmult2_eq[of 65536 a 1208925819614629174706176] by simp
  have e7: "a div 5192296858534827628530496329220096 = a7"
    unfolding a7_def e6[symmetric] using zdiv_zmult2_eq[of 65536 a 79228162514264337593543950336] by simp
  have d0: "a = a1 * 65536 + r0" unfolding a1_def r0_def by simp
  have d1: "a1 = a2 * 65536 + r1" unfolding a2_def r1_def by simp
  have d2: "a2 = a3 * 65536 + r2" unfolding a3_def r2_def by simp
  have d3: "a3 = a4 * 65536 + r3" unfolding a4_def r3_def by simp
  have d4: "a4 = a5 * 65536 + r4" unfolding a5_def r4_def by simp
  have d5: "a5 = a6 * 65536 + r5" unfolding a6_def r5_def by simp
  have d6: "a6 = a7 * 65536 + r6" unfolding a7_def r6_def by simp
  have "0 \<le> a7" "a7 < 65536" unfolding e7[symmetric] using assms by simp_all
  hence d7: "a7 mod 65536 = a7" by simp
  have "a7 * 5192296858534827628530496329220096 + r6 * 79228162514264337593543950336 + r5 * 1208925819614629174706176 + r4 * 18446744073709551616 + r3 * 281474976710656 + r2 * 4294967296 + r1 * 65536 + r0 = a"
    using d0 d1 d2 d3 d4 d5 d6 by simp
  thus ?thesis
    unfolding e1 e2 e3 e4 e5 e6 e7 d7 r0_def r1_def r2_def r3_def r4_def r5_def r6_def .
qed

lemma ipv6_digits_extract:
  fixes h0 h1 h2 h3 h4 h5 h6 h7 :: int
  assumes b: "0 \<le> h0" "h0 < 65536" "0 \<le> h1" "h1 < 65536" "0 \<le> h2" "h2 < 65536" "0 \<le> h3" "h3 < 65536" "0 \<le> h4" "h4 < 65536" "0 \<le> h5" "h5 < 65536" "0 \<le> h6" "h6 < 65536" "0 \<le> h7" "h7 < 65536"
    and n: "n = h0 * 5192296858534827628530496329220096 + h1 * 79228162514264337593543950336 + h2 * 1208925819614629174706176 + h3 * 18446744073709551616 + h4 * 281474976710656 + h5 * 4294967296 + h6 * 65536 + h7"
  shows "n div 5192296858534827628530496329220096 mod 65536 = h0" "n div 79228162514264337593543950336 mod 65536 = h1" "n div 1208925819614629174706176 mod 65536 = h2" "n div 18446744073709551616 mod 65536 = h3" "n div 281474976710656 mod 65536 = h4" "n div 4294967296 mod 65536 = h5" "n div 65536 mod 65536 = h6" "n mod 65536 = h7" "0 \<le> n" "n < 340282366920938463463374607431768211456"
proof -
  have q0: "n div 5192296858534827628530496329220096 = h0"
  proof (rule div_mod_unique(1))
    show "n = (h0) * 5192296858534827628530496329220096 + (h1 * 79228162514264337593543950336 + h2 * 1208925819614629174706176 + h3 * 18446744073709551616 + h4 * 281474976710656 + h5 * 4294967296 + h6 * 65536 + h7)" using n by simp
    show "0 \<le> h1 * 79228162514264337593543950336 + h2 * 1208925819614629174706176 + h3 * 18446744073709551616 + h4 * 281474976710656 + h5 * 4294967296 + h6 * 65536 + h7" using b by simp
    show "h1 * 79228162514264337593543950336 + h2 * 1208925819614629174706176 + h3 * 18446744073709551616 + h4 * 281474976710656 + h5 * 4294967296 + h6 * 65536 + h7 < 5192296858534827628530496329220096" using b by simp
  qed
  show "n div 5192296858534827628530496329220096 mod 65536 = h0" unfolding q0 using b by simp
  have q1: "n div 79228162514264337593543950336 = h0 * 65536 + h1"
  proof (rule div_mod_unique(1))
    show "n = (h0 * 65536 + h1) * 79228162514264337593543950336 + (h2 * 1208925819614629174706176 + h3 * 18446744073709551616 + h4 * 281474976710656 + h5 * 4294967296 + h6 * 65536 + h7)" using n by simp
    show "0 \<le> h2 * 1208925819614629174706176 + h3 * 18446744073709551616 + h4 * 281474976710656 + h5 * 4294967296 + h6 * 65536 + h7" using b by simp
    show "h2 * 1208925819614629174706176 + h3 * 18446744073709551616 + h4 * 281474976710656 + h5 * 4294967296 + h6 * 65536 + h7 < 79228162514264337593543950336" using b by simp
  qed
  have "(h0 * 65536 + h1) mod 65536 = h1"
  proof (rule div_mod_unique(2))
    show "h0 * 65536 + h1 = (h0) * 65536 + h1" by simp
    show "0 \<le> h1" "h1 < 65536" using b by simp_all
  qed
  thus "n div 79228162514264337593543950336 mod 65536 = h1" unfolding q1 .
  have q2: "n div 1208925819614629174706176 = h0 * 4294967296 + h1 * 65536 + h2"
  proof (rule div_mod_unique(1))
    show "n = (h0 * 4294967296 + h1 * 65536 + h2) * 1208925819614629174706176 + (h3 * 18446744073709551616 + h4 * 281474976710656 + h5 * 4294967296 + h6 * 65536 + h7)" using n by simp
    show "0 \<le> h3 * 18446744073709551616 + h4 * 281474976710656 + h5 * 4294967296 + h6 * 65536 + h7" using b by simp
    show "h3 * 18446744073709551616 + h4 * 281474976710656 + h5 * 4294967296 + h6 * 65536 + h7 < 1208925819614629174706176" using b by simp
  qed
  have "(h0 * 4294967296 + h1 * 65536 + h2) mod 65536 = h2"
  proof (rule div_mod_unique(2))
    show "h0 * 4294967296 + h1 * 65536 + h2 = (h0 * 65536 + h1) * 65536 + h2" by simp
    show "0 \<le> h2" "h2 < 65536" using b by simp_all
  qed
  thus "n div 1208925819614629174706176 mod 65536 = h2" unfolding q2 .
  have q3: "n div 18446744073709551616 = h0 * 281474976710656 + h1 * 4294967296 + h2 * 65536 + h3"
  proof (rule div_mod_unique(1))
    show "n = (h0 * 281474976710656 + h1 * 4294967296 + h2 * 65536 + h3) * 18446744073709551616 + (h4 * 281474976710656 + h5 * 4294967296 + h6 * 65536 + h7)" using n by simp
    show "0 \<le> h4 * 281474976710656 + h5 * 4294967296 + h6 * 65536 + h7" using b by simp
    show "h4 * 281474976710656 + h5 * 4294967296 + h6 * 65536 + h7 < 18446744073709551616" using b by simp
  qed
  have "(h0 * 281474976710656 + h1 * 4294967296 + h2 * 65536 + h3) mod 65536 = h3"
  proof (rule div_mod_unique(2))
    show "h0 * 281474976710656 + h1 * 4294967296 + h2 * 65536 + h3 = (h0 * 4294967296 + h1 * 65536 + h2) * 65536 + h3" by simp
    show "0 \<le> h3" "h3 < 65536" using b by simp_all
  qed
  thus "n div 18446744073709551616 mod 65536 = h3" unfolding q3 .
  have q4: "n div 281474976710656 = h0 * 18446744073709551616 + h1 * 281474976710656 + h2 * 4294967296 + h3 * 65536 + h4"
  proof (rule div_mod_unique(1))
    show "n = (h0 * 18446744073709551616 + h1 * 281474976710656 + h2 * 4294967296 + h3 * 65536 + h4) * 281474976710656 + (h5 * 4294967296 + h6 * 65536 + h7)" using n by simp
    show "0 \<le> h5 * 4294967296 + h6 * 65536 + h7" using b by simp
    show "h5 * 4294967296 + h6 * 65536 + h7 < 281474976710656" using b by simp
  qed
  have "(h0 * 18446744073709551616 + h1 * 281474976710656 + h2 * 4294967296 + h3 * 65536 + h4) mod 65536 = h4"
  proof (rule div_mod_unique(2))
    show "h0 * 18446744073709551616 + h1 * 281474976710656 + h2 * 4294967296 + h3 * 65536 + h4 = (h0 * 281474976710656 + h1 * 4294967296 + h2 * 65536 + h3) * 65536 + h4" by simp
    show "0 \<le> h4" "h4 < 65536" using b by simp_all
  qed
  thus "n div 281474976710656 mod 65536 = h4" unfolding q4 .
  have q5: "n div 4294967296 = h0 * 1208925819614629174706176 + h1 * 18446744073709551616 + h2 * 281474976710656 + h3 * 4294967296 + h4 * 65536 + h5"
  proof (rule div_mod_unique(1))
    show "n = (h0 * 1208925819614629174706176 + h1 * 18446744073709551616 + h2 * 281474976710656 + h3 * 4294967296 + h4 * 65536 + h5) * 4294967296 + (h6 * 65536 + h7)" using n by simp
    show "0 \<le> h6 * 65536 + h7" using b by simp
    show "h6 * 65536 + h7 < 4294967296" using b by simp
  qed
  have "(h0 * 1208925819614629174706176 + h1 * 18446744073709551616 + h2 * 281474976710656 + h3 * 4294967296 + h4 * 65536 + h5) mod 65536 = h5"
  proof (rule div_mod_unique(2))
    show "h0 * 1208925819614629174706176 + h1 * 18446744073709551616 + h2 * 281474976710656 + h3 * 4294967296 + h4 * 65536 + h5 = (h0 * 18446744073709551616 + h1 * 281474976710656 + h2 * 4294967296 + h3 * 65536 + h4) * 65536 + h5" by simp
    show "0 \<le> h5" "h5 < 65536" using b by simp_all
  qed
  thus "n div 4294967296 mod 65536 = h5" unfolding q5 .
  have q6: "n div 65536 = h0 * 79228162514264337593543950336 + h1 * 1208925819614629174706176 + h2 * 18446744073709551616 + h3 * 281474976710656 + h4 * 4294967296 + h5 * 65536 + h6"
  proof (rule div_mod_unique(1))
    show "n = (h0 * 79228162514264337593543950336 + h1 * 1208925819614629174706176 + h2 * 18446744073709551616 + h3 * 281474976710656 + h4 * 4294967296 + h5 * 65536 + h6) * 65536 + (h7)" using n by simp
    show "0 \<le> h7" using b by simp
    show "h7 < 65536" using b by simp
  qed
  have "(h0 * 79228162514264337593543950336 + h1 * 1208925819614629174706176 + h2 * 18446744073709551616 + h3 * 281474976710656 + h4 * 4294967296 + h5 * 65536 + h6) mod 65536 = h6"
  proof (rule div_mod_unique(2))
    show "h0 * 79228162514264337593543950336 + h1 * 1208925819614629174706176 + h2 * 18446744073709551616 + h3 * 281474976710656 + h4 * 4294967296 + h5 * 65536 + h6 = (h0 * 1208925819614629174706176 + h1 * 18446744073709551616 + h2 * 281474976710656 + h3 * 4294967296 + h4 * 65536 + h5) * 65536 + h6" by simp
    show "0 \<le> h6" "h6 < 65536" using b by simp_all
  qed
  thus "n div 65536 mod 65536 = h6" unfolding q6 .
  show "n mod 65536 = h7"
  proof (rule div_mod_unique(2))
    show "n = (h0 * 79228162514264337593543950336 + h1 * 1208925819614629174706176 + h2 * 18446744073709551616 + h3 * 281474976710656 + h4 * 4294967296 + h5 * 65536 + h6) * 65536 + h7" using n by simp
    show "0 \<le> h7" "h7 < 65536" using b by simp_all
  qed
  show "0 \<le> n" "n < 340282366920938463463374607431768211456" using b n by simp_all
qed


lemma div_mod_unique_nat:
  fixes a b q r :: nat
  assumes "a = q * b + r" "r < b"
  shows "a div b = q" "a mod b = r"
  using assms by simp_all

lemma hex_digits_sum:
  assumes "v < 65536"
  shows "((v div 4096 * 16 + v div 256 mod 16) * 16 + v div 16 mod 16) * 16 + v mod 16 = (v::nat)"
proof -
  define v1 where "v1 = v div 16"
  define v2 where "v2 = v1 div 16"
  define v3 where "v3 = v2 div 16"
  define r0 where "r0 = v mod 16"
  define r1 where "r1 = v1 mod 16"
  define r2 where "r2 = v2 mod 16"
  have e2: "v div 256 = v2" unfolding v2_def v1_def using div_mult2_eq[of v 16 16] by simp
  have e3: "v div 4096 = v3" unfolding v3_def e2[symmetric] using div_mult2_eq[of v 256 16] by simp
  have d0: "v = v1 * 16 + r0" unfolding v1_def r0_def by simp
  have d1: "v1 = v2 * 16 + r1" unfolding v2_def r1_def by simp
  have d2: "v2 = v3 * 16 + r2" unfolding v3_def r2_def by simp
  have "((v3 * 16 + r2) * 16 + r1) * 16 + r0 = v" using d0 d1 d2 by simp
  thus ?thesis unfolding e2 e3 r0_def r1_def r2_def v1_def .
qed

lemma hex_digits_extract:
  fixes d1 d2 d3 d4 :: nat
  assumes b: "d1 < 16" "d2 < 16" "d3 < 16" "d4 < 16"
    and v: "v = ((d1 * 16 + d2) * 16 + d3) * 16 + d4"
  shows "v div 4096 = d1" "v div 256 mod 16 = d2" "v div 16 mod 16 = d3" "v mod 16 = d4"
    "v < 65536"
proof -
  show "v div 4096 = d1"
  proof (rule div_mod_unique_nat(1))
    show "v = d1 * 4096 + (d2 * 256 + d3 * 16 + d4)" using v by simp
    show "d2 * 256 + d3 * 16 + d4 < 4096" using b by simp
  qed
  have "v div 256 = d1 * 16 + d2"
  proof (rule div_mod_unique_nat(1))
    show "v = (d1 * 16 + d2) * 256 + (d3 * 16 + d4)" using v by simp
    show "d3 * 16 + d4 < 256" using b by simp
  qed
  thus "v div 256 mod 16 = d2" using b by simp
  have "v div 16 = (d1 * 16 + d2) * 16 + d3"
  proof (rule div_mod_unique_nat(1))
    show "v = ((d1 * 16 + d2) * 16 + d3) * 16 + d4" using v by simp
    show "d4 < 16" using b by simp
  qed
  moreover have "((d1 * 16 + d2) * 16 + d3) mod 16 = d3"
  proof (rule div_mod_unique_nat(2))
    show "(d1 * 16 + d2) * 16 + d3 = (d1 * 16 + d2) * 16 + d3" ..
    show "d3 < 16" using b by simp
  qed
  ultimately show "v div 16 mod 16 = d3" by (simp only:)
  show "v mod 16 = d4"
  proof (rule div_mod_unique_nat(2))
    show "v = ((d1 * 16 + d2) * 16 + d3) * 16 + d4" by (rule v)
    show "d4 < 16" using b by simp
  qed
  show "v < 65536" using v b by simp
qed


lemma of_char_digitChar_hex: "10 \<le> d \<Longrightarrow> d < 16 \<Longrightarrow> (of_char (digitChar d) :: nat) = 87 + d"
  unfolding digitChar_def by simp

lemma hexVal_digitChar: "d < 16 \<Longrightarrow> hexVal (digitChar d) = Some d"
proof (cases "d < 10")
  case True
  then show ?thesis unfolding hexVal_def Let_def of_char_digitChar[OF True] by simp
next
  case False
  assume "d < 16"
  with False have d: "10 \<le> d" "d < 16" by simp_all
  show ?thesis unfolding hexVal_def Let_def of_char_digitChar_hex[OF d] using d by simp
qed

lemma digitChar_lowerHex: "d < 16 \<Longrightarrow> isLowerHex (digitChar d)"
proof (cases "d < 10")
  case True
  then show ?thesis unfolding isLowerHex_def of_char_digitChar[OF True] by simp
next
  case False
  assume "d < 16"
  with False have d: "10 \<le> d" "d < 16" by simp_all
  show ?thesis unfolding isLowerHex_def of_char_digitChar_hex[OF d] using d by simp
qed

lemma digitChar_hexVal:
  assumes "isLowerHex c" "hexVal c = Some d"
  shows "digitChar d = c"
proof -
  define n where "n = (of_char c :: nat)"
  from assms(1) have r: "(48 \<le> n \<and> n \<le> 57) \<or> (97 \<le> n \<and> n \<le> 102)"
    unfolding isLowerHex_def n_def by simp
  have "(of_char (digitChar d) :: nat) = n"
  proof (cases "48 \<le> n \<and> n \<le> 57")
    case True
    with assms(2) have "d = n - 48" unfolding hexVal_def Let_def n_def by simp
    with True have "d < 10" "48 + d = n" by arith+
    thus ?thesis using of_char_digitChar[of d] by simp
  next
    case False
    with r have h: "97 \<le> n \<and> n \<le> 102" by simp
    with assms(2) have "d = n - 87" unfolding hexVal_def Let_def n_def by simp
    with h have "10 \<le> d" "d < 16" "87 + d = n" by arith+
    thus ?thesis using of_char_digitChar_hex[of d] by simp
  qed
  thus ?thesis unfolding n_def by (simp only: of_char_eq_iff)
qed

lemma digitChar_0: "digitChar 0 = CHR ''0''"
proof -
  have "(of_char (digitChar 0) :: nat) = of_char CHR ''0''" using of_char_digitChar[of 0] by simp
  thus ?thesis by (simp only: of_char_eq_iff)
qed

lemma hexadecimal_1: "v < 16 \<Longrightarrow> hexadecimal v = [digitChar v]"
  by (subst hexadecimal.simps) simp

lemma hexadecimal_2:
  "16 \<le> v \<Longrightarrow> v < 256 \<Longrightarrow> hexadecimal v = [digitChar (v div 16), digitChar (v mod 16)]"
  by (subst hexadecimal.simps) (simp add: hexadecimal_1 less_mult_imp_div_less)

lemma hexadecimal_3:
  assumes "256 \<le> v" "v < 4096"
  shows "hexadecimal v = [digitChar (v div 256), digitChar (v div 16 mod 16), digitChar (v mod 16)]"
proof -
  have a: "16 \<le> v div 16" "v div 16 < 256" using assms by simp_all
  have b: "v div 16 div 16 = v div 256" using div_mult2_eq[of v 16 16] by simp
  show ?thesis using assms by (subst hexadecimal.simps) (simp add: hexadecimal_2[OF a] b)
qed

lemma hexadecimal_4:
  assumes "4096 \<le> v" "v < 65536"
  shows "hexadecimal v = [digitChar (v div 4096), digitChar (v div 256 mod 16),
                          digitChar (v div 16 mod 16), digitChar (v mod 16)]"
proof -
  have a: "256 \<le> v div 16" "v div 16 < 4096" using assms by simp_all
  have b: "v div 16 div 256 = v div 4096" using div_mult2_eq[of v 16 256] by simp
  have c: "v div 16 div 16 = v div 256" using div_mult2_eq[of v 16 16] by simp
  show ?thesis using assms by (subst hexadecimal.simps) (simp add: hexadecimal_3[OF a] b c)
qed

lemma padded_hexadecimal:
  assumes "v < 65536"
  shows "sliceLast 4 (''000'' @ hexadecimal v) =
           [digitChar (v div 4096), digitChar (v div 256 mod 16),
            digitChar (v div 16 mod 16), digitChar (v mod 16)]"
proof -
  consider "v < 16" | "16 \<le> v" "v < 256" | "256 \<le> v" "v < 4096" | "4096 \<le> v" "v < 65536"
    using assms by linarith
  thus ?thesis
  proof cases
    case 1
    then show ?thesis by (simp add: hexadecimal_1 sliceLast_def digitChar_0)
  next
    case 2
    hence "v div 256 = 0" "v div 4096 = 0" by simp_all
    with 2 show ?thesis by (simp add: hexadecimal_2 sliceLast_def digitChar_0)
  next
    case 3
    hence "v div 4096 = 0" by simp
    with 3 show ?thesis by (simp add: hexadecimal_3 sliceLast_def digitChar_0)
  next
    case 4
    then show ?thesis by (simp add: hexadecimal_4 sliceLast_def)
  qed
qed

lemma hextetString_digits:
  "hextetString h =
     [digitChar (nat (h mod 65536) div 4096), digitChar (nat (h mod 65536) div 256 mod 16),
      digitChar (nat (h mod 65536) div 16 mod 16), digitChar (nat (h mod 65536) mod 16)]"
proof -
  have "nat (h mod 65536) < 65536" by simp
  moreover have "\<not> h mod 65536 < 0" by (simp add: not_less)
  hence "toString16 (h mod 65536) = hexadecimal (nat (h mod 65536))"
    unfolding toString16_def by (simp only: if_False)
  ultimately show ?thesis
    unfolding hextetString_def and_65535 by (simp only: padded_hexadecimal)
qed

lemma hexValue_4:
  assumes "hexVal c1 = Some d1" "hexVal c2 = Some d2" "hexVal c3 = Some d3" "hexVal c4 = Some d4"
  shows "hexValue [c1, c2, c3, c4] = ((d1 * 16 + d2) * 16 + d3) * 16 + d4"
  unfolding hexValue_def using assms by (simp add: algebra_simps)

lemma hextetString_canonical:
  "length (hextetString h) = 4" "\<forall>c\<in>set (hextetString h). isLowerHex c"
  "CHR '':'' \<notin> set (hextetString h)"
proof -
  have d: "nat (h mod 65536) div 4096 < 16" "nat (h mod 65536) div 256 mod 16 < 16"
    "nat (h mod 65536) div 16 mod 16 < 16" "nat (h mod 65536) mod 16 < 16"
    by (simp_all add: less_mult_imp_div_less)
  show "length (hextetString h) = 4" unfolding hextetString_digits by simp
  show l: "\<forall>c\<in>set (hextetString h). isLowerHex c"
    unfolding hextetString_digits using d by (simp add: digitChar_lowerHex)
  show "CHR '':'' \<notin> set (hextetString h)" using l lowerHex_facts(4) by blast
qed

lemma hextetValue_hextetString: "hextetValue (hextetString h) = h mod 65536"
proof -
  define v where "v = nat (h mod 65536)"
  have v: "v < 65536" unfolding v_def by simp
  have d: "v div 4096 < 16" "v div 256 mod 16 < 16" "v div 16 mod 16 < 16" "v mod 16 < 16"
    using v by (simp_all add: less_mult_imp_div_less)
  have "hexValue (hextetString h) =
        ((v div 4096 * 16 + v div 256 mod 16) * 16 + v div 16 mod 16) * 16 + v mod 16"
    unfolding hextetString_digits v_def[symmetric]
    by (rule hexValue_4) (simp_all add: hexVal_digitChar d)
  also have "\<dots> = v" by (rule hex_digits_sum[OF v])
  finally show ?thesis unfolding hextetValue_def v_def by simp
qed

lemma hextetString_hextetValue:
  assumes "length g = 4" "\<forall>c\<in>set g. isLowerHex c" "h mod 65536 = hextetValue g"
  shows "hextetString h = g"
proof -
  from assms(1) obtain c1 c2 c3 c4 where g: "g = [c1, c2, c3, c4]" unfolding list4 by blast
  with assms(2) have hx: "isLowerHex c1" "isLowerHex c2" "isLowerHex c3" "isLowerHex c4" by simp_all
  from lowerHex_facts(2)[OF hx(1)] lowerHex_facts(2)[OF hx(2)]
       lowerHex_facts(2)[OF hx(3)] lowerHex_facts(2)[OF hx(4)]
  obtain d1 d2 d3 d4 where d: "hexVal c1 = Some d1" "hexVal c2 = Some d2" "hexVal c3 = Some d3"
    "hexVal c4 = Some d4" and b: "d1 < 16" "d2 < 16" "d3 < 16" "d4 < 16" by blast
  define v where "v = ((d1 * 16 + d2) * 16 + d3) * 16 + d4"
  have "hexValue g = v" unfolding g v_def by (rule hexValue_4[OF d])
  with assms(3) have "nat (h mod 65536) = v" unfolding hextetValue_def by simp
  note x = hex_digits_extract[OF b v_def]
  show ?thesis
    unfolding hextetString_digits \<open>nat (h mod 65536) = v\<close> x(1-4) g
    by (simp add: digitChar_hexVal[OF hx(1) d(1)] digitChar_hexVal[OF hx(2) d(2)]
        digitChar_hexVal[OF hx(3) d(3)] digitChar_hexVal[OF hx(4) d(4)])
qed

lemma toIPv6AddrString_groups:
  assumes "0 \<le> a"
  shows "toIPv6AddrString a =
           joinStr CHR '':'' [hextetString (a div 5192296858534827628530496329220096),
              hextetString (a div 79228162514264337593543950336),
              hextetString (a div 1208925819614629174706176),
              hextetString (a div 18446744073709551616),
              hextetString (a div 281474976710656),
              hextetString (a div 4294967296),
              hextetString (a div 65536),
              hextetString a]"
  unfolding toIPv6AddrString_def using assms by (simp add: tdiv_nonneg)

lemma splitStr_groups:
  assumes "\<forall>g\<in>set [g0, g1, g2, g3, g4, g5, g6, g7]. CHR '':'' \<notin> set g"
  shows "splitStr CHR '':'' (joinStr CHR '':'' [g0, g1, g2, g3, g4, g5, g6, g7]) =
         [g0, g1, g2, g3, g4, g5, g6, g7]"
  using assms by (intro splitStr_joinStr) simp_all

lemma ipv6_parse_format:
  assumes "0 \<le> a" "a < 2 ^ 128"
  shows "toIPv6AddrInteger (toIPv6AddrString a) = Inr a"
proof -
  have a2: "a < 340282366920938463463374607431768211456" using assms(2) by simp
  have sp: "splitStr CHR '':'' (toIPv6AddrString a) =
           [hextetString (a div 5192296858534827628530496329220096),
            hextetString (a div 79228162514264337593543950336),
            hextetString (a div 1208925819614629174706176),
            hextetString (a div 18446744073709551616),
            hextetString (a div 281474976710656),
            hextetString (a div 4294967296),
            hextetString (a div 65536),
            hextetString a]"
    unfolding toIPv6AddrString_groups[OF assms(1)]
    by (rule splitStr_groups) (simp add: hextetString_canonical)
  have ok: "\<forall>g\<in>set [hextetString (a div 5192296858534827628530496329220096),
            hextetString (a div 79228162514264337593543950336),
            hextetString (a div 1208925819614629174706176),
            hextetString (a div 18446744073709551616),
            hextetString (a div 281474976710656),
            hextetString (a div 4294967296),
            hextetString (a div 65536),
            hextetString a].
          length g = 4 \<and> (\<forall>c\<in>set g. isLowerHex c)"
    by (simp add: hextetString_canonical)
  have "toIPv6AddrInteger (toIPv6AddrString a) =
           Inr (hextetValue (hextetString (a div 5192296858534827628530496329220096)) * 5192296858534827628530496329220096 +
                hextetValue (hextetString (a div 79228162514264337593543950336)) * 79228162514264337593543950336 +
                hextetValue (hextetString (a div 1208925819614629174706176)) * 1208925819614629174706176 +
                hextetValue (hextetString (a div 18446744073709551616)) * 18446744073709551616 +
                hextetValue (hextetString (a div 281474976710656)) * 281474976710656 +
                hextetValue (hextetString (a div 4294967296)) * 4294967296 +
                hextetValue (hextetString (a div 65536)) * 65536 +
                hextetValue (hextetString a))"
    by (rule toIPv6AddrInteger_groups[OF sp ok])
  also have "\<dots> = Inr a"
    unfolding hextetValue_hextetString by (simp only: ipv6_digits_sum[OF assms(1) a2])
  finally show ?thesis .
qed

lemma ipv6_format_parse:
  assumes ok: "\<forall>g\<in>set [g0, g1, g2, g3, g4, g5, g6, g7]. length g = 4 \<and> (\<forall>c\<in>set g. isLowerHex c)"
  shows "\<exists>n. toIPv6AddrInteger (joinStr CHR '':'' [g0, g1, g2, g3, g4, g5, g6, g7]) = Inr n \<and>
             toIPv6AddrString n = joinStr CHR '':'' [g0, g1, g2, g3, g4, g5, g6, g7]"
proof -
  define n where "n = hextetValue g0 * 5192296858534827628530496329220096 + hextetValue g1 * 79228162514264337593543950336 + hextetValue g2 * 1208925819614629174706176 + hextetValue g3 * 18446744073709551616 + hextetValue g4 * 281474976710656 + hextetValue g5 * 4294967296 + hextetValue g6 * 65536 + hextetValue g7"
  have nc: "\<forall>g\<in>set [g0, g1, g2, g3, g4, g5, g6, g7]. CHR '':'' \<notin> set g"
    using ok lowerHex_facts(4) by blast
  have p: "toIPv6AddrInteger (joinStr CHR '':'' [g0, g1, g2, g3, g4, g5, g6, g7]) = Inr n"
    unfolding n_def by (rule toIPv6AddrInteger_groups[OF splitStr_groups[OF nc] ok])
  have b: "0 \<le> hextetValue g0" "hextetValue g0 < 65536" "0 \<le> hextetValue g1" "hextetValue g1 < 65536" "0 \<le> hextetValue g2" "hextetValue g2 < 65536" "0 \<le> hextetValue g3" "hextetValue g3 < 65536" "0 \<le> hextetValue g4" "hextetValue g4 < 65536" "0 \<le> hextetValue g5" "hextetValue g5 < 65536" "0 \<le> hextetValue g6" "hextetValue g6 < 65536" "0 \<le> hextetValue g7" "hextetValue g7 < 65536"
    using ok by (simp_all add: BigInt0x_hextet)
  note x = ipv6_digits_extract[OF b n_def]
  have g: "length g0 = 4" "\<forall>c\<in>set g0. isLowerHex c" "length g1 = 4" "\<forall>c\<in>set g1. isLowerHex c"
    "length g2 = 4" "\<forall>c\<in>set g2. isLowerHex c" "length g3 = 4" "\<forall>c\<in>set g3. isLowerHex c"
    "length g4 = 4" "\<forall>c\<in>set g4. isLowerHex c" "length g5 = 4" "\<forall>c\<in>set g5. isLowerHex c"
    "length g6 = 4" "\<forall>c\<in>set g6. isLowerHex c" "length g7 = 4" "\<forall>c\<in>set g7. isLowerHex c"
    using ok by simp_all
  have h: "hextetString (n div 5192296858534827628530496329220096) = g0"
    "hextetString (n div 79228162514264337593543950336) = g1"
    "hextetString (n div 1208925819614629174706176) = g2"
    "hextetString (n div 18446744073709551616) = g3"
    "hextetString (n div 281474976710656) = g4"
    "hextetString (n div 4294967296) = g5"
    "hextetString (n div 65536) = g6"
    "hextetString n = g7"
    by (rule hextetString_hextetValue[OF g(1,2) x(1)] hextetString_hextetValue[OF g(3,4) x(2)]
        hextetString_hextetValue[OF g(5,6) x(3)] hextetString_hextetValue[OF g(7,8) x(4)]
        hextetString_hextetValue[OF g(9,10) x(5)] hextetString_hextetValue[OF g(11,12) x(6)]
        hextetString_hextetValue[OF g(13,14) x(7)] hextetString_hextetValue[OF g(15,16) x(8)])+
  have "toIPv6AddrString n = joinStr CHR '':'' [g0, g1, g2, g3, g4, g5, g6, g7]"
    unfolding toIPv6AddrString_groups[OF x(9)] h ..
  with p show ?thesis by blast
qed

subsection \<open>Reading the returned strings back\<close>

lemma isDigit_no_slash: "isDigit c \<Longrightarrow> c \<noteq> CHR ''/''"
  unfolding isDigit_iff by auto

lemma isLowerHex_no_slash: "isLowerHex c \<Longrightarrow> c \<noteq> CHR ''/''"
  unfolding isLowerHex_iff by auto

lemma digits_no_slash: "list_all isDigit ds \<Longrightarrow> CHR ''/'' \<notin> set ds"
  using isDigit_no_slash by (auto simp: list_all_iff)

lemma toIPv4AddrString_no_slash: "CHR ''/'' \<notin> set (toIPv4AddrString x)"
  unfolding toIPv4AddrString_octets using digits_no_slash[OF decimal_digits] by simp

lemma toIPv6AddrString_no_slash:
  assumes "0 \<le> a"
  shows "CHR ''/'' \<notin> set (toIPv6AddrString a)"
proof -
  have "CHR ''/'' \<notin> set (hextetString h)" for h
    using hextetString_canonical(2)[of h] isLowerHex_no_slash by blast
  thus ?thesis unfolding toIPv6AddrString_groups[OF assms] by simp
qed

lemma isIPv4Addr_toIPv4AddrString: "isIPv4Addr (toIPv4AddrString x)"
proof -
  define q1 where "q1 = nat ((toUint32 x div 16777216) mod 256)"
  define q2 where "q2 = nat ((toUint32 x div 65536) mod 256)"
  define q3 where "q3 = nat ((toUint32 x div 256) mod 256)"
  define q4 where "q4 = nat (toUint32 x mod 256)"
  have b: "q1 < 256" "q2 < 256" "q3 < 256" "q4 < 256"
    unfolding q1_def q2_def q3_def q4_def by simp_all
  have s: "toIPv4AddrString x = decimal q1 @ ''.'' @ decimal q2 @ ''.'' @ decimal q3 @ ''.'' @ decimal q4"
    unfolding q1_def q2_def q3_def q4_def by (rule toIPv4AddrString_octets)
  have sp: "splitStr CHR ''.'' (toIPv4AddrString x) = [decimal q1, decimal q2, decimal q3, decimal q4]"
    unfolding s by (simp add: splitStr_append splitStr_no_sep digits_no_dot decimal_digits)
  have p: "parseInt10 (decimal q) = Num (int q)" for q
    using parseInt10_digits[OF decimal_nonempty decimal_digits, of q] by (simp add: decimalValue_decimal)
  show ?thesis unfolding isIPv4Addr_iff sp using b by (simp add: p)
qed

lemma isIPv6Addr_toIPv6AddrString:
  assumes "0 \<le> a"
  shows "isIPv6Addr (toIPv6AddrString a)"
proof -
  let ?gs = "[hextetString (a div 5192296858534827628530496329220096),
              hextetString (a div 79228162514264337593543950336),
              hextetString (a div 1208925819614629174706176),
              hextetString (a div 18446744073709551616),
              hextetString (a div 281474976710656),
              hextetString (a div 4294967296),
              hextetString (a div 65536),
              hextetString a]"
  have sp: "splitStr CHR '':'' (toIPv6AddrString a) = ?gs"
    unfolding toIPv6AddrString_groups[OF assms]
    by (rule splitStr_groups) (simp add: hextetString_canonical)
  show ?thesis unfolding isIPv6Addr_iff sp by (simp add: hextetString_canonical)
qed

lemma toString10_nat: "toString10 (int i) = decimal i"
  unfolding toString10_def by simp

lemma readIPv4Subnet_ipv4SubnetString:
  assumes "0 \<le> b" "b < 2 ^ 32"
  shows "readIPv4Subnet (ipv4SubnetString b i) = Some (b, i)"
proof -
  have sp: "splitStr CHR ''/'' (ipv4SubnetString b i) = [toIPv4AddrString (Num b), decimal i]"
    unfolding ipv4SubnetString_def toString10_nat
    using splitStr_append[OF toIPv4AddrString_no_slash, of "Num b" "decimal i"]
      splitStr_no_sep[OF digits_no_slash[OF decimal_digits], of i]
    by simp
  show ?thesis
    unfolding readIPv4Subnet_def sp
    by (simp add: isIPv4Addr_toIPv4AddrString decimal_nonempty decimal_digits
        ipv4_parse_format[OF assms] decimalValue_decimal)
qed

lemma readIPv6Subnet_ipv6SubnetString:
  assumes "0 \<le> b" "b < 2 ^ 128"
  shows "readIPv6Subnet (ipv6SubnetString b i) = Some (b, i)"
proof -
  have sp: "splitStr CHR ''/'' (ipv6SubnetString b i) = [toIPv6AddrString b, decimal i]"
    unfolding ipv6SubnetString_def toString10_nat
    using splitStr_append[OF toIPv6AddrString_no_slash[OF assms(1)], of "decimal i"]
      splitStr_no_sep[OF digits_no_slash[OF decimal_digits], of i]
    by simp
  show ?thesis
    unfolding readIPv6Subnet_def sp
    by (simp add: isIPv6Addr_toIPv6AddrString[OF assms(1)] decimal_nonempty decimal_digits
        ipv6_parse_format[OF assms] decimalValue_decimal)
qed

lemma consecutive_base_range:
  assumes "consecutive W s xs (e + 1)" "0 \<le> s" "e < m" "x \<in> set xs"
  shows "0 \<le> fst x \<and> fst x < m"
  using consecutive_bounds[OF assms(1,4)] blockSize_pos[of W "snd x"] assms(2,3) by simp

lemma readIPv4Subnet_map:
  assumes "consecutive 32 s xs (e + 1)" "0 \<le> s" "e < 2 ^ 32"
  shows "map readIPv4Subnet (map (\<lambda>(b, p). ipv4SubnetString b p) xs) = map Some xs"
proof -
  have "readIPv4Subnet (case x of (b, p) \<Rightarrow> ipv4SubnetString b p) = Some x" if "x \<in> set xs" for x
    using consecutive_base_range[OF assms that] readIPv4Subnet_ipv4SubnetString[of "fst x" "snd x"]
    by (cases x) simp
  thus ?thesis by simp
qed

lemma readIPv6Subnet_map:
  assumes "consecutive 128 s xs (e + 1)" "0 \<le> s" "e < 2 ^ 128"
  shows "map readIPv6Subnet (map (\<lambda>(b, p). ipv6SubnetString b p) xs) = map Some xs"
proof -
  have "readIPv6Subnet (case x of (b, p) \<Rightarrow> ipv6SubnetString b p) = Some x" if "x \<in> set xs" for x
    using consecutive_base_range[OF assms that] readIPv6Subnet_ipv6SubnetString[of "fst x" "snd x"]
    by (cases x) simp
  thus ?thesis by simp
qed

lemma ipv4_full_strings:
  "map (\<lambda>(b, p). ipv4SubnetString b p) [(0, 1), (2 ^ 31, 1)] = [''0.0.0.0/1'', ''128.0.0.0/1'']"
proof -
  have "ipv4SubnetString 0 1 = ''0.0.0.0/1''" by code_simp
  moreover have "ipv4SubnetString 2147483648 1 = ''128.0.0.0/1''" by code_simp
  ultimately show ?thesis by simp
qed

lemma hextetString_mod: "hextetString h = hextetString (h mod 65536)"
  by (simp add: hextetString_digits)

lemma hextetString_0: "hextetString 0 = ''0000''"
  unfolding hextetString_digits by (simp add: digitChar_0)

lemma hextetString_32768: "hextetString 32768 = ''8000''"
proof -
  have "digitChar 8 = CHR ''8''" by code_simp
  thus ?thesis unfolding hextetString_digits by (simp add: digitChar_0)
qed

lemma toIPv6AddrString_half:
  "toIPv6AddrString 170141183460469231731687303715884105728 =
     ''8000:0000:0000:0000:0000:0000:0000:0000''"
proof -
  have z: "hextetString h = ''0000''" if "h mod 65536 = 0" for h
    using hextetString_mod[of h] that by (simp add: hextetString_0)
  have "toIPv6AddrString 170141183460469231731687303715884105728 =
          joinStr CHR '':''
            [hextetString (170141183460469231731687303715884105728 div 5192296858534827628530496329220096),
             hextetString (170141183460469231731687303715884105728 div 79228162514264337593543950336),
             hextetString (170141183460469231731687303715884105728 div 1208925819614629174706176),
             hextetString (170141183460469231731687303715884105728 div 18446744073709551616),
             hextetString (170141183460469231731687303715884105728 div 281474976710656),
             hextetString (170141183460469231731687303715884105728 div 4294967296),
             hextetString (170141183460469231731687303715884105728 div 65536),
             hextetString 170141183460469231731687303715884105728]"
    by (rule toIPv6AddrString_groups) simp
  also have "\<dots> = joinStr CHR '':''
      [''8000'', ''0000'', ''0000'', ''0000'', ''0000'', ''0000'', ''0000'', ''0000'']"
    by (simp add: z hextetString_32768)
  also have "\<dots> = ''8000:0000:0000:0000:0000:0000:0000:0000''" by simp
  finally show ?thesis .
qed

lemma ipv6_full_strings:
  "map (\<lambda>(b, p). ipv6SubnetString b p) [(0, 1), (2 ^ 127, 1)] =
     [''0000:0000:0000:0000:0000:0000:0000:0000/1'', ''8000:0000:0000:0000:0000:0000:0000:0000/1'']"
proof -
  have "ipv6SubnetString 0 1 = ''0000:0000:0000:0000:0000:0000:0000:0000/1''" by code_simp
  moreover have "toString10 1 = ''1''" by code_simp
  hence "ipv6SubnetString 170141183460469231731687303715884105728 1 =
      ''8000:0000:0000:0000:0000:0000:0000:0000/1''"
    unfolding ipv6SubnetString_def toIPv6AddrString_half by simp
  ultimately show ?thesis by simp
qed

lemma ipv4_single_string: "ipv4SubnetString s 32 = toIPv4AddrString (Num s) @ ''/32''"
proof -
  have "toString10 32 = ''32''" by code_simp
  thus ?thesis unfolding ipv4SubnetString_def by simp
qed

lemma ipv6_single_string: "ipv6SubnetString s 128 = toIPv6AddrString s @ ''/128''"
proof -
  have "toString10 128 = ''128''" by code_simp
  thus ?thesis unfolding ipv6SubnetString_def by simp
qed

subsection \<open>Rejected IPv6 addresses\<close>

lemma isIPv6Addr_chars:
  assumes "isIPv6Addr str" "c \<in> set str"
  shows "c = CHR '':'' \<or> isLowerHex c"
proof -
  from assms(2) have "c \<in> set (joinStr CHR '':'' (splitStr CHR '':'' str))"
    by (simp add: joinStr_splitStr)
  with set_joinStr[of "CHR '':''" "splitStr CHR '':'' str"]
  have "c = CHR '':'' \<or> (\<exists>g\<in>set (splitStr CHR '':'' str). c \<in> set g)" by auto
  moreover from assms(1) have "\<forall>g\<in>set (splitStr CHR '':'' str). \<forall>c\<in>set g. isLowerHex c"
    unfolding isIPv6Addr_iff by blast
  ultimately show ?thesis by blast
qed

lemma IPv6Range_set_iprange_throws:
  assumes "rangeArray str = a0 # a1 # rest" "\<not> isIPv6Addr a0 \<or> \<not> isIPv6Addr a1"
  shows "IPv6Range_set_iprange str this = Some (Throws IPRangeAddressError this)"
  unfolding IPv6Range_set_iprange_def using assms by auto

section \<open>The claims about the decomposer\<close>

text \<open>
  Claim C1.  For both address families and every interval \<open>0 \<le> s \<le> e < 2 ^ width\<close>, the
  decomposer returns an array of strings, every string of the array reads back as a subnet,
  and these subnets partition the interval from \<open>s\<close> to \<open>e\<close> exactly: every address of the
  interval lies in exactly one of them, and an address outside the interval lies in none.
\<close>

theorem C1_exact_partition:
  assumes "0 \<le> s" and "s \<le> e"
  shows "(e < 2 ^ 32 \<longrightarrow>
           (\<exists>out xs. makeIPv4SubnetFromRange (Num s) (Num e) [] = Some out \<and>
                 map readIPv4Subnet out = map Some xs \<and>
                 (\<forall>a. length (filter (inSubnet 32 a) xs) = (if s \<le> a \<and> a \<le> e then 1 else 0)))) \<and>
         (e < 2 ^ 128 \<longrightarrow>
           (\<exists>out xs. makeIPv6SubnetFromRange s e [] = Some out \<and>
                 map readIPv6Subnet out = map Some xs \<and>
                 (\<forall>a. length (filter (inSubnet 128 a) xs) = (if s \<le> a \<and> a \<le> e then 1 else 0))))"
proof (intro conjI impI)
  assume e: "e < 2 ^ 32"
  from makeIPv4SubnetFromRange_good[OF assms] obtain xs where
    xs: "consecutive 32 s xs (e + 1)"
      "\<forall>acc. makeIPv4SubnetFromRange (Num s) (Num e) acc =
         Some (acc @ map (\<lambda>(b, p). ipv4SubnetString b p) xs)"
    by blast
  let ?out = "map (\<lambda>(b, p). ipv4SubnetString b p) xs"
  have r: "makeIPv4SubnetFromRange (Num s) (Num e) [] = Some ?out" using xs(2) by simp
  have m: "map readIPv4Subnet ?out = map Some xs" by (rule readIPv4Subnet_map[OF xs(1) assms(1) e])
  have c: "\<forall>a. length (filter (inSubnet 32 a) xs) = (if s \<le> a \<and> a \<le> e then 1 else 0)"
    using consecutive_count[OF xs(1)] by simp
  from r m c
  show "\<exists>out xs. makeIPv4SubnetFromRange (Num s) (Num e) [] = Some out \<and>
             map readIPv4Subnet out = map Some xs \<and>
             (\<forall>a. length (filter (inSubnet 32 a) xs) = (if s \<le> a \<and> a \<le> e then 1 else 0))"
    by blast
next
  assume e: "e < 2 ^ 128"
  from makeIPv6SubnetFromRange_good[OF assms] obtain xs where
    xs: "consecutive 128 s xs (e + 1)"
      "\<forall>acc. makeIPv6SubnetFromRange s e acc =
         Some (acc @ map (\<lambda>(b, p). ipv6SubnetString b p) xs)"
    by blast
  let ?out = "map (\<lambda>(b, p). ipv6SubnetString b p) xs"
  have r: "makeIPv6SubnetFromRange s e [] = Some ?out" using xs(2) by simp
  have m: "map readIPv6Subnet ?out = map Some xs" by (rule readIPv6Subnet_map[OF xs(1) assms(1) e])
  have c: "\<forall>a. length (filter (inSubnet 128 a) xs) = (if s \<le> a \<and> a \<le> e then 1 else 0)"
    using consecutive_count[OF xs(1)] by simp
  from r m c
  show "\<exists>out xs. makeIPv6SubnetFromRange s e [] = Some out \<and>
             map readIPv6Subnet out = map Some xs \<and>
             (\<forall>a. length (filter (inSubnet 128 a) xs) = (if s \<le> a \<and> a \<le> e then 1 else 0))"
    by blast
qed

theorem C1_exact_partition_witness:
  "(\<exists>out xs. makeIPv4SubnetFromRange (Num 3232235521) (Num 3232235620) [] = Some out \<and>
         map readIPv4Subnet out = map Some xs \<and>
         (\<forall>a. length (filter (inSubnet 32 a) xs) =
               (if 3232235521 \<le> a \<and> a \<le> 3232235620 then 1 else 0))) \<and>
   (\<exists>out xs. makeIPv6SubnetFromRange 3232235521 3232235620 [] = Some out \<and>
         map readIPv6Subnet out = map Some xs \<and>
         (\<forall>a. length (filter (inSubnet 128 a) xs) =
               (if 3232235521 \<le> a \<and> a \<le> 3232235620 then 1 else 0)))"
  using C1_exact_partition[of 3232235521 3232235620] by simp



text \<open>
  Claim C4.  For both address families and every interval \<open>0 \<le> s \<le> e < 2 ^ width\<close>, the
  strings of the returned array read back as CIDR blocks of prefix length 1 to width that
  cover the interval exactly, and no list of such blocks that covers the interval exactly
  is shorter than the returned array.  No returned block has prefix length 0; the full
  address space gives exactly the two strings of the blocks of prefix length 1; a single
  address gives exactly one string, of the block of prefix length width at that address.
\<close>

theorem C4_minimal_under_policy:
  assumes "0 \<le> s" and "s \<le> e"
  shows "(e < 2 ^ 32 \<longrightarrow>
           (\<exists>out xs. makeIPv4SubnetFromRange (Num s) (Num e) [] = Some out \<and>
                 map readIPv4Subnet out = map Some xs \<and>
                 coversExactly 32 s e xs \<and>
                 (\<forall>ys. coversExactly 32 s e ys \<longrightarrow> length out \<le> length ys) \<and>
                 (\<forall>x\<in>set xs. snd x \<noteq> 0) \<and>
                 (s = 0 \<and> e = 2 ^ 32 - 1 \<longrightarrow>
                    out = [''0.0.0.0/1'', ''128.0.0.0/1''] \<and> xs = [(0, 1), (2 ^ 31, 1)]) \<and>
                 (s = e \<longrightarrow> out = [toIPv4AddrString (Num s) @ ''/32''] \<and> xs = [(s, 32)]))) \<and>
         (e < 2 ^ 128 \<longrightarrow>
           (\<exists>out xs. makeIPv6SubnetFromRange s e [] = Some out \<and>
                 map readIPv6Subnet out = map Some xs \<and>
                 coversExactly 128 s e xs \<and>
                 (\<forall>ys. coversExactly 128 s e ys \<longrightarrow> length out \<le> length ys) \<and>
                 (\<forall>x\<in>set xs. snd x \<noteq> 0) \<and>
                 (s = 0 \<and> e = 2 ^ 128 - 1 \<longrightarrow>
                    out = [''0000:0000:0000:0000:0000:0000:0000:0000/1'',
                           ''8000:0000:0000:0000:0000:0000:0000:0000/1''] \<and>
                    xs = [(0, 1), (2 ^ 127, 1)]) \<and>
                 (s = e \<longrightarrow> out = [toIPv6AddrString s @ ''/128''] \<and> xs = [(s, 128)])))"
proof (intro conjI impI)
  assume e: "e < 2 ^ 32"
  from makeIPv4SubnetFromRange_good[OF assms] obtain xs where
    xs: "consecutive 32 s xs (e + 1)" "\<forall>x\<in>set xs. maximalIn 32 s e x"
      "\<forall>acc. makeIPv4SubnetFromRange (Num s) (Num e) acc =
         Some (acc @ map (\<lambda>(b, p). ipv4SubnetString b p) xs)"
    by blast
  define out where "out = map (\<lambda>(b, p). ipv4SubnetString b p) xs"
  have r: "makeIPv4SubnetFromRange (Num s) (Num e) [] = Some out" using xs(3) by (simp add: out_def)
  have m: "map readIPv4Subnet out = map Some xs"
    unfolding out_def by (rule readIPv4Subnet_map[OF xs(1) assms(1) e])
  have l: "length out = length xs" by (simp add: out_def)
  have a: "coversExactly 32 s e xs" by (rule consecutive_covers[OF xs(1)])
  have b: "\<forall>ys. coversExactly 32 s e ys \<longrightarrow> length out \<le> length ys"
    unfolding l using minimal_count[OF xs(1,2)] by blast
  have c: "\<forall>x\<in>set xs. snd x \<noteq> 0"
    using consecutive_cidr[OF xs(1)] unfolding cidrBlock_def by fastforce
  have d: "s = 0 \<and> e = 2 ^ 32 - 1 \<longrightarrow>
             out = [''0.0.0.0/1'', ''128.0.0.0/1''] \<and> xs = [(0, 1), (2 ^ 31, 1)]"
  proof
    assume "s = 0 \<and> e = 2 ^ 32 - 1"
    with consecutive_full[of 32 xs] xs(1,2) have x: "xs = [(0, 1), (2 ^ 31, 1)]" by auto
    have "out = [''0.0.0.0/1'', ''128.0.0.0/1'']" unfolding out_def x by (rule ipv4_full_strings)
    with x show "out = [''0.0.0.0/1'', ''128.0.0.0/1''] \<and> xs = [(0, 1), (2 ^ 31, 1)]" by blast
  qed
  have f: "s = e \<longrightarrow> out = [toIPv4AddrString (Num s) @ ''/32''] \<and> xs = [(s, 32)]"
  proof
    assume "s = e"
    with consecutive_single[of 32 s xs] xs(1) have x: "xs = [(s, 32)]" by auto
    have "out = [toIPv4AddrString (Num s) @ ''/32'']"
      unfolding out_def x using ipv4_single_string[of s] by simp
    with x show "out = [toIPv4AddrString (Num s) @ ''/32''] \<and> xs = [(s, 32)]" by blast
  qed
  from r m a b c d f
  show "\<exists>out xs. makeIPv4SubnetFromRange (Num s) (Num e) [] = Some out \<and>
                 map readIPv4Subnet out = map Some xs \<and>
                 coversExactly 32 s e xs \<and>
                 (\<forall>ys. coversExactly 32 s e ys \<longrightarrow> length out \<le> length ys) \<and>
                 (\<forall>x\<in>set xs. snd x \<noteq> 0) \<and>
                 (s = 0 \<and> e = 2 ^ 32 - 1 \<longrightarrow>
                    out = [''0.0.0.0/1'', ''128.0.0.0/1''] \<and> xs = [(0, 1), (2 ^ 31, 1)]) \<and>
                 (s = e \<longrightarrow> out = [toIPv4AddrString (Num s) @ ''/32''] \<and> xs = [(s, 32)])"
    by blast
next
  assume e: "e < 2 ^ 128"
  from makeIPv6SubnetFromRange_good[OF assms] obtain xs where
    xs: "consecutive 128 s xs (e + 1)" "\<forall>x\<in>set xs. maximalIn 128 s e x"
      "\<forall>acc. makeIPv6SubnetFromRange s e acc =
         Some (acc @ map (\<lambda>(b, p). ipv6SubnetString b p) xs)"
    by blast
  define out where "out = map (\<lambda>(b, p). ipv6SubnetString b p) xs"
  have r: "makeIPv6SubnetFromRange s e [] = Some out" using xs(3) by (simp add: out_def)
  have m: "map readIPv6Subnet out = map Some xs"
    unfolding out_def by (rule readIPv6Subnet_map[OF xs(1) assms(1) e])
  have l: "length out = length xs" by (simp add: out_def)
  have a: "coversExactly 128 s e xs" by (rule consecutive_covers[OF xs(1)])
  have b: "\<forall>ys. coversExactly 128 s e ys \<longrightarrow> length out \<le> length ys"
    unfolding l using minimal_count[OF xs(1,2)] by blast
  have c: "\<forall>x\<in>set xs. snd x \<noteq> 0"
    using consecutive_cidr[OF xs(1)] unfolding cidrBlock_def by fastforce
  have d: "s = 0 \<and> e = 2 ^ 128 - 1 \<longrightarrow>
             out = [''0000:0000:0000:0000:0000:0000:0000:0000/1'',
                    ''8000:0000:0000:0000:0000:0000:0000:0000/1''] \<and>
             xs = [(0, 1), (2 ^ 127, 1)]"
  proof
    assume "s = 0 \<and> e = 2 ^ 128 - 1"
    with consecutive_full[of 128 xs] xs(1,2) have x: "xs = [(0, 1), (2 ^ 127, 1)]" by auto
    have "out = [''0000:0000:0000:0000:0000:0000:0000:0000/1'',
                 ''8000:0000:0000:0000:0000:0000:0000:0000/1'']"
      unfolding out_def x by (rule ipv6_full_strings)
    with x show "out = [''0000:0000:0000:0000:0000:0000:0000:0000/1'',
                    ''8000:0000:0000:0000:0000:0000:0000:0000/1''] \<and>
             xs = [(0, 1), (2 ^ 127, 1)]" by blast
  qed
  have f: "s = e \<longrightarrow> out = [toIPv6AddrString s @ ''/128''] \<and> xs = [(s, 128)]"
  proof
    assume "s = e"
    with consecutive_single[of 128 s xs] xs(1) have x: "xs = [(s, 128)]" by auto
    have "out = [toIPv6AddrString s @ ''/128'']"
      unfolding out_def x using ipv6_single_string[of s] by simp
    with x show "out = [toIPv6AddrString s @ ''/128''] \<and> xs = [(s, 128)]" by blast
  qed
  from r m a b c d f
  show "\<exists>out xs. makeIPv6SubnetFromRange s e [] = Some out \<and>
                 map readIPv6Subnet out = map Some xs \<and>
                 coversExactly 128 s e xs \<and>
                 (\<forall>ys. coversExactly 128 s e ys \<longrightarrow> length out \<le> length ys) \<and>
                 (\<forall>x\<in>set xs. snd x \<noteq> 0) \<and>
                 (s = 0 \<and> e = 2 ^ 128 - 1 \<longrightarrow>
                    out = [''0000:0000:0000:0000:0000:0000:0000:0000/1'',
                           ''8000:0000:0000:0000:0000:0000:0000:0000/1''] \<and>
                    xs = [(0, 1), (2 ^ 127, 1)]) \<and>
                 (s = e \<longrightarrow> out = [toIPv6AddrString s @ ''/128''] \<and> xs = [(s, 128)])"
    by blast
qed

theorem C4_minimal_under_policy_witness:
  "makeIPv4SubnetFromRange (Num 0) (Num 4294967295) [] = Some [''0.0.0.0/1'', ''128.0.0.0/1''] \<and>
   makeIPv6SubnetFromRange 0 0 [] = Some [''0000:0000:0000:0000:0000:0000:0000:0000/128'']"
proof
  from C4_minimal_under_policy[of 0 4294967295]
  show "makeIPv4SubnetFromRange (Num 0) (Num 4294967295) [] = Some [''0.0.0.0/1'', ''128.0.0.0/1'']"
    by auto
  have t: "toIPv6AddrString 0 = ''0000:0000:0000:0000:0000:0000:0000:0000''" by code_simp
  from C4_minimal_under_policy[of 0 0]
  have "makeIPv6SubnetFromRange 0 0 [] = Some [toIPv6AddrString 0 @ ''/128'']" by auto
  thus "makeIPv6SubnetFromRange 0 0 [] = Some [''0000:0000:0000:0000:0000:0000:0000:0000/128'']"
    unfolding t by simp
qed

text \<open>
  Claim C9.  For both address families and every interval \<open>0 \<le> s \<le> e < 2 ^ width\<close>, the
  decomposer returns, and it returns the same array when every recursive call is required
  to be on a non-empty interval inside the caller's interval and strictly shorter than it,
  and every call is required to leave its loop after exactly \<open>width\<close> iterations.
\<close>

theorem C9_decomposition_terminates:
  assumes "0 \<le> s" and "s \<le> e"
  shows "(e < 2 ^ 32 \<longrightarrow>
           (\<exists>out. makeIPv4SubnetFromRange (Num s) (Num e) arraySave = Some out \<and>
                  checkedMakeSubnetFromRange 32 2147483648 ipv4SubnetString s e arraySave =
                    Some out)) \<and>
         (e < 2 ^ 128 \<longrightarrow>
           (\<exists>out. makeIPv6SubnetFromRange s e arraySave = Some out \<and>
                  checkedMakeSubnetFromRange 128 170141183460469231731687303715884105728
                    ipv6SubnetString s e arraySave = Some out))"
proof (intro conjI impI)
  from makeIPv4SubnetFromRange_good[OF assms] obtain out
    where out: "makeIPv4SubnetFromRange (Num s) (Num e) arraySave = Some out" by blast
  moreover have "checkedMakeSubnetFromRange 32 2147483648 ipv4SubnetString s e arraySave =
                 makeIPv4SubnetFromRange (Num s) (Num e) arraySave"
    using checkedMakeSubnetFromRange_eq[of 32 s e ipv4SubnetString arraySave] assms
    by (simp add: makeIPv4SubnetFromRange_def)
  ultimately
  show "\<exists>out. makeIPv4SubnetFromRange (Num s) (Num e) arraySave = Some out \<and>
              checkedMakeSubnetFromRange 32 2147483648 ipv4SubnetString s e arraySave = Some out"
    by simp
next
  from makeIPv6SubnetFromRange_good[OF assms] obtain out
    where out: "makeIPv6SubnetFromRange s e arraySave = Some out" by blast
  moreover have "checkedMakeSubnetFromRange 128 170141183460469231731687303715884105728
                   ipv6SubnetString s e arraySave =
                 makeIPv6SubnetFromRange s e arraySave"
    using checkedMakeSubnetFromRange_eq[of 128 s e ipv6SubnetString arraySave] assms
    by (simp add: makeIPv6SubnetFromRange_def)
  ultimately
  show "\<exists>out. makeIPv6SubnetFromRange s e arraySave = Some out \<and>
              checkedMakeSubnetFromRange 128 170141183460469231731687303715884105728
                ipv6SubnetString s e arraySave = Some out"
    by simp
qed

theorem C9_decomposition_terminates_witness:
  "(\<exists>out. makeIPv4SubnetFromRange (Num 3232235521) (Num 3232235620) [] = Some out \<and>
          checkedMakeSubnetFromRange 32 2147483648 ipv4SubnetString 3232235521 3232235620 [] =
            Some out) \<and>
   (\<exists>out. makeIPv6SubnetFromRange 3232235521 3232235620 [] = Some out \<and>
          checkedMakeSubnetFromRange 128 170141183460469231731687303715884105728
            ipv6SubnetString 3232235521 3232235620 [] = Some out)"
  using C9_decomposition_terminates[of 3232235521 3232235620 "[]"] by simp

section \<open>The claims about the address checks and the range objects\<close>

text \<open>
  Claim C10.  When the range string has two or more separators, both setters use the first
  two components only: \<open>a-b-c\<close> gives the same outcome and the same object as \<open>a-b\<close>,
  whatever \<open>c\<close> is, and is accepted when \<open>a\<close> and \<open>b\<close> are valid addresses in order.
\<close>

theorem C10_later_components_ignored:
  assumes "CHR ''-'' \<notin> set a" and "CHR ''-'' \<notin> set b"
  shows "IPv4Range_set_iprange (a @ ''-'' @ b @ ''-'' @ c) this4 =
           IPv4Range_set_iprange (a @ ''-'' @ b) this4 \<and>
         IPv6Range_set_iprange (a @ ''-'' @ b @ ''-'' @ c) this6 =
           IPv6Range_set_iprange (a @ ''-'' @ b) this6 \<and>
         (isIPv4Addr a \<and> isIPv4Addr b \<and> \<not> jsgt (toIPv4AddrInteger a) (toIPv4AddrInteger b) \<longrightarrow>
            (\<exists>array. IPv4Range_set_iprange (a @ ''-'' @ b @ ''-'' @ c) this4 =
               Some (Returns (this4\<lparr>intStartAddr := Some (toIPv4AddrInteger a),
                                    intEndAddr := Some (toIPv4AddrInteger b),
                                    arraySubnet := Some array\<rparr>)))) \<and>
         (isIPv6Addr a \<and> isIPv6Addr b \<and> toIPv6AddrInteger a = Inr s \<and> toIPv6AddrInteger b = Inr e \<and>
          s \<le> e \<longrightarrow>
            (\<exists>array. IPv6Range_set_iprange (a @ ''-'' @ b @ ''-'' @ c) this6 =
               Some (Returns (this6\<lparr>intStartAddr := Some s, intEndAddr := Some e,
                                    arraySubnet := Some array\<rparr>))))"
proof (intro conjI impI)
  show "IPv4Range_set_iprange (a @ ''-'' @ b @ ''-'' @ c) this4 =
        IPv4Range_set_iprange (a @ ''-'' @ b) this4"
    unfolding IPv4Range_set_iprange_def rangeArray_three[OF assms] by simp
  show "IPv6Range_set_iprange (a @ ''-'' @ b @ ''-'' @ c) this6 =
        IPv6Range_set_iprange (a @ ''-'' @ b) this6"
    unfolding IPv6Range_set_iprange_def rangeArray_three[OF assms] by simp
next
  assume "isIPv4Addr a \<and> isIPv4Addr b \<and> \<not> jsgt (toIPv4AddrInteger a) (toIPv4AddrInteger b)"
  thus "\<exists>array. IPv4Range_set_iprange (a @ ''-'' @ b @ ''-'' @ c) this4 =
               Some (Returns (this4\<lparr>intStartAddr := Some (toIPv4AddrInteger a),
                                    intEndAddr := Some (toIPv4AddrInteger b),
                                    arraySubnet := Some array\<rparr>))"
    using IPv4Range_set_iprange_returns[OF rangeArray_three(1)[OF assms, of c], of this4] by blast
next
  assume "isIPv6Addr a \<and> isIPv6Addr b \<and> toIPv6AddrInteger a = Inr s \<and>
          toIPv6AddrInteger b = Inr e \<and> s \<le> e"
  thus "\<exists>array. IPv6Range_set_iprange (a @ ''-'' @ b @ ''-'' @ c) this6 =
               Some (Returns (this6\<lparr>intStartAddr := Some s, intEndAddr := Some e,
                                    arraySubnet := Some array\<rparr>))"
    using IPv6Range_set_iprange_returns[OF rangeArray_three(1)[OF assms, of c], of s e this6] by blast
qed

theorem C10_later_components_ignored_witness:
  "IPv4Range_set_iprange ''1.1.1.1-1.1.1.2-9.9.9.9-x'' IPRange_new =
     IPv4Range_set_iprange ''1.1.1.1-1.1.1.2'' IPRange_new \<and>
   (\<exists>array. IPv4Range_set_iprange ''1.1.1.1-1.1.1.2-9.9.9.9-x'' IPRange_new =
      Some (Returns \<lparr>intStartAddr = Some (Num 16843009), intEndAddr = Some (Num 16843010),
                     arraySubnet = Some array\<rparr>))"
proof -
  have a: "isIPv4Addr ''1.1.1.1''" "isIPv4Addr ''1.1.1.2''"
    "toIPv4AddrInteger ''1.1.1.1'' = Num 16843009" "toIPv4AddrInteger ''1.1.1.2'' = Num 16843010"
    by code_simp+
  have prem: "CHR ''-'' \<notin> set ''1.1.1.1''" "CHR ''-'' \<notin> set ''1.1.1.2''" by simp_all
  have cond: "isIPv4Addr ''1.1.1.1'' \<and> isIPv4Addr ''1.1.1.2'' \<and>
              \<not> jsgt (toIPv4AddrInteger ''1.1.1.1'') (toIPv4AddrInteger ''1.1.1.2'')"
    by (simp add: a)
  note inst = C10_later_components_ignored[OF prem, of "''9.9.9.9-x''" IPRange_new IPRange_new 0 0]
  have eq: "IPv4Range_set_iprange (''1.1.1.1'' @ ''-'' @ ''1.1.1.2'' @ ''-'' @ ''9.9.9.9-x'')
              IPRange_new =
            IPv4Range_set_iprange (''1.1.1.1'' @ ''-'' @ ''1.1.1.2'') IPRange_new"
    using inst by blast
  have ex: "\<exists>array. IPv4Range_set_iprange
               (''1.1.1.1'' @ ''-'' @ ''1.1.1.2'' @ ''-'' @ ''9.9.9.9-x'') IPRange_new =
               Some (Returns (IPRange_new\<lparr>intStartAddr := Some (toIPv4AddrInteger ''1.1.1.1''),
                                    intEndAddr := Some (toIPv4AddrInteger ''1.1.1.2''),
                                    arraySubnet := Some array\<rparr>))"
    using inst cond by blast
  have eq': "IPv4Range_set_iprange ''1.1.1.1-1.1.1.2-9.9.9.9-x'' IPRange_new =
             IPv4Range_set_iprange ''1.1.1.1-1.1.1.2'' IPRange_new"
    using eq by simp
  have ex': "\<exists>array. IPv4Range_set_iprange ''1.1.1.1-1.1.1.2-9.9.9.9-x'' IPRange_new =
      Some (Returns \<lparr>intStartAddr = Some (Num 16843009), intEndAddr = Some (Num 16843010),
                     arraySubnet = Some array\<rparr>)"
    using ex by (simp add: a IPRange_new_def)
  show ?thesis using eq' ex' by (rule conjI)
qed

text \<open>
  Claim C8 at an input with uppercase letters.  The IPv6 address check rejects an address
  written with \<^verbatim>\<open>0DB8\<close>, and assigning it fails with the address error.
\<close>

theorem C8_uppercase_counterexample:
  "\<not> isIPv6Addr ''2001:0DB8:0000:0000:0000:0000:0000:0001'' \<and>
   IPv6Range_set_iprange ''2001:0DB8:0000:0000:0000:0000:0000:0001'' IPRange_new =
     Some (Throws IPRangeAddressError IPRange_new)"
proof (rule conjI)
  show "\<not> isIPv6Addr ''2001:0DB8:0000:0000:0000:0000:0000:0001''" by code_simp
  show "IPv6Range_set_iprange ''2001:0DB8:0000:0000:0000:0000:0000:0001'' IPRange_new =
     Some (Throws IPRangeAddressError IPRange_new)" by code_simp
qed

text \<open>
  Claim C8, as the code has it.  The IPv6 address check accepts exactly the strings of eight
  colon-separated groups of exactly four characters, each a decimal digit or a lowercase
  letter from \<open>a\<close> to \<open>f\<close>, and assigning an accepted string succeeds.  A string with an
  uppercase letter from \<open>A\<close> to \<open>F\<close> is rejected.  Assigning a string that the check rejects
  fails with the address error and leaves the object as it was, whether the string is
  assigned alone or as either address of a range.
\<close>

theorem C8_lowercase_hex_groups:
  "(isIPv6Addr str \<longleftrightarrow>
      (\<exists>gs. length gs = 8 \<and> (\<forall>g\<in>set gs. length g = 4 \<and> set g \<subseteq> set ''0123456789abcdef'') \<and>
            str = joinStr CHR '':'' gs)) \<and>
   (isIPv6Addr str \<longrightarrow>
      (\<exists>n array. IPv6Range_set_iprange str this =
         Some (Returns (this\<lparr>intStartAddr := Some n, intEndAddr := Some n,
                              arraySubnet := Some array\<rparr>)))) \<and>
   ((\<exists>c\<in>set str. c \<in> set ''ABCDEF'') \<longrightarrow> \<not> isIPv6Addr str) \<and>
   (\<not> isIPv6Addr str \<and> CHR ''-'' \<notin> set str \<longrightarrow>
      IPv6Range_set_iprange str this = Some (Throws IPRangeAddressError this)) \<and>
   (CHR ''-'' \<notin> set a \<and> CHR ''-'' \<notin> set b \<and> (\<not> isIPv6Addr a \<or> \<not> isIPv6Addr b) \<longrightarrow>
      IPv6Range_set_iprange (a @ ''-'' @ b) this = Some (Throws IPRangeAddressError this) \<and>
      IPv6Range_set_iprange (a @ ''-'' @ b @ ''-'' @ c) this =
        Some (Throws IPRangeAddressError this))"
proof (intro conjI impI iffI)
  assume ok: "isIPv6Addr str"
  let ?gs = "splitStr CHR '':'' str"
  from ok have l: "length ?gs = 8"
    and h: "\<forall>g\<in>set ?gs. length g = 4 \<and> (\<forall>c\<in>set g. isLowerHex c)"
    unfolding isIPv6Addr_iff by blast+
  have "\<forall>g\<in>set ?gs. length g = 4 \<and> set g \<subseteq> set ''0123456789abcdef''"
    using h isLowerHex_iff by blast
  moreover have "str = joinStr CHR '':'' ?gs" by (simp only: joinStr_splitStr)
  ultimately have "length ?gs = 8 \<and>
        (\<forall>g\<in>set ?gs. length g = 4 \<and> set g \<subseteq> set ''0123456789abcdef'') \<and>
        str = joinStr CHR '':'' ?gs"
    using l by blast
  thus "\<exists>gs. length gs = 8 \<and> (\<forall>g\<in>set gs. length g = 4 \<and> set g \<subseteq> set ''0123456789abcdef'') \<and>
            str = joinStr CHR '':'' gs" by blast
next
  assume "\<exists>gs. length gs = 8 \<and> (\<forall>g\<in>set gs. length g = 4 \<and> set g \<subseteq> set ''0123456789abcdef'') \<and>
            str = joinStr CHR '':'' gs"
  then obtain gs where gs: "length gs = 8"
    "\<forall>g\<in>set gs. length g = 4 \<and> set g \<subseteq> set ''0123456789abcdef''" "str = joinStr CHR '':'' gs"
    by blast
  have "gs \<noteq> []" using gs(1) by auto
  moreover have "\<forall>g\<in>set gs. CHR '':'' \<notin> set g"
  proof -
    have "CHR '':'' \<notin> set ''0123456789abcdef''" by simp
    with gs(2) show ?thesis by blast
  qed
  ultimately have sp: "splitStr CHR '':'' str = gs" unfolding gs(3) by (rule splitStr_joinStr)
  have "\<forall>g\<in>set gs. length g = 4 \<and> (\<forall>c\<in>set g. isLowerHex c)"
    using gs(2) isLowerHex_iff by blast
  with gs(1) show "isIPv6Addr str" unfolding isIPv6Addr_iff sp by blast
next
  assume ok: "isIPv6Addr str"
  have "c \<noteq> CHR ''-''" if "c \<in> set str" for c
  proof -
    from that have "c \<in> set (joinStr CHR '':'' (splitStr CHR '':'' str))"
      by (simp add: joinStr_splitStr)
    with set_joinStr[of "CHR '':''" "splitStr CHR '':'' str"]
    have "c = CHR '':'' \<or> (\<exists>g\<in>set (splitStr CHR '':'' str). c \<in> set g)" by auto
    moreover from ok have "\<forall>g\<in>set (splitStr CHR '':'' str). \<forall>c\<in>set g. isLowerHex c"
      unfolding isIPv6Addr_iff by blast
    ultimately show ?thesis using lowerHex_facts(3) by blast
  qed
  hence "CHR ''-'' \<notin> set str" by blast
  hence arr: "rangeArray str = str # str # []" by (rule rangeArray_single)
  from isIPv6Addr_value[OF ok] obtain n where n: "toIPv6AddrInteger str = Inr n" by blast
  from IPv6Range_set_iprange_returns[OF arr ok ok n n, of this]
  show "\<exists>n array. IPv6Range_set_iprange str this =
         Some (Returns (this\<lparr>intStartAddr := Some n, intEndAddr := Some n,
                              arraySubnet := Some array\<rparr>))" by blast
next
  assume up: "\<exists>c\<in>set str. c \<in> set ''ABCDEF''"
  show "\<not> isIPv6Addr str"
  proof
    assume ok: "isIPv6Addr str"
    from up obtain c where c: "c \<in> set str" "c \<in> set ''ABCDEF''" by blast
    from isIPv6Addr_chars[OF ok c(1)] have "c = CHR '':'' \<or> c \<in> set ''0123456789abcdef''"
      unfolding isLowerHex_iff .
    with c(2) show False by auto
  qed
next
  assume h: "\<not> isIPv6Addr str \<and> CHR ''-'' \<notin> set str"
  hence arr: "rangeArray str = str # str # []" by (simp add: rangeArray_single)
  show "IPv6Range_set_iprange str this = Some (Throws IPRangeAddressError this)"
    by (rule IPv6Range_set_iprange_throws[OF arr]) (use h in blast)
next
  assume h: "CHR ''-'' \<notin> set a \<and> CHR ''-'' \<notin> set b \<and> (\<not> isIPv6Addr a \<or> \<not> isIPv6Addr b)"
  hence arr: "rangeArray (a @ ''-'' @ b) = a # b # []" using rangeArray_three(2)[of a b] by blast
  show "IPv6Range_set_iprange (a @ ''-'' @ b) this = Some (Throws IPRangeAddressError this)"
    by (rule IPv6Range_set_iprange_throws[OF arr]) (use h in blast)
next
  assume h: "CHR ''-'' \<notin> set a \<and> CHR ''-'' \<notin> set b \<and> (\<not> isIPv6Addr a \<or> \<not> isIPv6Addr b)"
  hence arr: "rangeArray (a @ ''-'' @ b @ ''-'' @ c) = a # b # splitStr CHR ''-'' c"
    using rangeArray_three(1)[of a b c] by blast
  show "IPv6Range_set_iprange (a @ ''-'' @ b @ ''-'' @ c) this =
        Some (Throws IPRangeAddressError this)"
    by (rule IPv6Range_set_iprange_throws[OF arr]) (use h in blast)
qed

theorem C8_lowercase_hex_groups_witness:
  "(\<exists>n array. IPv6Range_set_iprange ''2001:0db8:0000:0000:0000:0000:0000:0001'' IPRange_new =
         Some (Returns \<lparr>intStartAddr = Some n, intEndAddr = Some n, arraySubnet = Some array\<rparr>)) \<and>
   IPv6Range_set_iprange ''2001:0DB8:0000:0000:0000:0000:0000:0001'' IPRange_new =
     Some (Throws IPRangeAddressError IPRange_new) \<and>
   IPv6Range_set_iprange ''2001:0db8:0000:0000:0000:0000:0000:0001-2001:0DB8:0000:0000:0000:0000:0000:0001''
       IPRange_new =
     Some (Throws IPRangeAddressError IPRange_new)"
proof (intro conjI)
  have a: "isIPv6Addr ''2001:0db8:0000:0000:0000:0000:0000:0001''" by code_simp
  show "\<exists>n array. IPv6Range_set_iprange ''2001:0db8:0000:0000:0000:0000:0000:0001'' IPRange_new =
         Some (Returns \<lparr>intStartAddr = Some n, intEndAddr = Some n, arraySubnet = Some array\<rparr>)"
    using C8_lowercase_hex_groups[of "''2001:0db8:0000:0000:0000:0000:0000:0001''" IPRange_new] a
    by (simp add: IPRange_new_def)
  have u: "\<exists>c\<in>set ''2001:0DB8:0000:0000:0000:0000:0000:0001''. c \<in> set ''ABCDEF''" by simp
  have d: "CHR ''-'' \<notin> set ''2001:0DB8:0000:0000:0000:0000:0000:0001''" by simp
  note inst = C8_lowercase_hex_groups[of "''2001:0DB8:0000:0000:0000:0000:0000:0001''" IPRange_new
      "''2001:0db8:0000:0000:0000:0000:0000:0001''" "''2001:0DB8:0000:0000:0000:0000:0000:0001''" "[]"]
  from inst u have n: "\<not> isIPv6Addr ''2001:0DB8:0000:0000:0000:0000:0000:0001''" by blast
  from inst n d
  show "IPv6Range_set_iprange ''2001:0DB8:0000:0000:0000:0000:0000:0001'' IPRange_new =
     Some (Throws IPRangeAddressError IPRange_new)" by blast
  have d2: "CHR ''-'' \<notin> set ''2001:0db8:0000:0000:0000:0000:0000:0001''" by simp
  from inst n d d2
  have "IPv6Range_set_iprange (''2001:0db8:0000:0000:0000:0000:0000:0001'' @ ''-'' @
          ''2001:0DB8:0000:0000:0000:0000:0000:0001'') IPRange_new =
     Some (Throws IPRangeAddressError IPRange_new)" by blast
  thus "IPv6Range_set_iprange
       ''2001:0db8:0000:0000:0000:0000:0000:0001-2001:0DB8:0000:0000:0000:0000:0000:0001''
       IPRange_new =
     Some (Throws IPRangeAddressError IPRange_new)" by simp
qed

text \<open>
  Claim C3 at a failing input.  The piece \<^verbatim>\<open>x\<close> of \<^verbatim>\<open>1.2.3.x\<close> is not a decimal octet, yet the
  IPv4 address check accepts the string and the assignment returns normally, with \<^verbatim>\<open>NaN\<close>
  for both addresses and no subnet.
\<close>

theorem C3_non_decimal_octet_accepted:
  "isIPv4Addr ''1.2.3.x'' \<and>
   IPv4Range_set_iprange ''1.2.3.x'' IPRange_new =
     Some (Returns \<lparr>intStartAddr = Some NaN, intEndAddr = Some NaN, arraySubnet = Some []\<rparr>)"
  by code_simp

text \<open>
  Claim C2 at a failing input.  After the successful assignment of \<^verbatim>\<open>1.1.1.1\<close>, the assignment
  of the inverted range \<^verbatim>\<open>2.2.2.2-1.1.1.1\<close> throws, but the object it leaves behind holds the
  new addresses: the range getter now returns the rejected range, next to the old subnets.
\<close>

theorem C2_inverted_range_overwrites_addresses:
  "IPv4Range_set_iprange ''1.1.1.1'' IPRange_new =
     Some (Returns \<lparr>intStartAddr = Some (Num 16843009), intEndAddr = Some (Num 16843009),
                    arraySubnet = Some [''1.1.1.1/32'']\<rparr>) \<and>
   IPv4Range_get_iprange \<lparr>intStartAddr = Some (Num 16843009), intEndAddr = Some (Num 16843009),
                    arraySubnet = Some [''1.1.1.1/32'']\<rparr> = Inr ''1.1.1.1-1.1.1.1'' \<and>
   IPv4Range_set_iprange ''2.2.2.2-1.1.1.1''
       \<lparr>intStartAddr = Some (Num 16843009), intEndAddr = Some (Num 16843009),
        arraySubnet = Some [''1.1.1.1/32'']\<rparr> =
     Some (Throws IPRangeAddressError
            \<lparr>intStartAddr = Some (Num 33686018), intEndAddr = Some (Num 16843009),
             arraySubnet = Some [''1.1.1.1/32'']\<rparr>) \<and>
   IPv4Range_get_iprange \<lparr>intStartAddr = Some (Num 33686018), intEndAddr = Some (Num 16843009),
                    arraySubnet = Some [''1.1.1.1/32'']\<rparr> = Inr ''2.2.2.2-1.1.1.1''"
  by code_simp

text \<open>
  Claim C7 at a failing input.  On a new object the assignment of the inverted range
  \<^verbatim>\<open>2.2.2.2-1.1.1.1\<close> throws; no assignment has succeeded, the subnet getter throws, and yet
  the range getter returns a range.
\<close>

theorem C7_range_getter_after_failed_assignment:
  "IPv4Range_set_iprange ''2.2.2.2-1.1.1.1'' IPRange_new =
     Some (Throws IPRangeAddressError
            \<lparr>intStartAddr = Some (Num 33686018), intEndAddr = Some (Num 16843009),
             arraySubnet = None\<rparr>) \<and>
   IPv4Range_get_iprange \<lparr>intStartAddr = Some (Num 33686018), intEndAddr = Some (Num 16843009),
                    arraySubnet = None\<rparr> = Inr ''2.2.2.2-1.1.1.1'' \<and>
   get_subnet \<lparr>intStartAddr = Some (Num 33686018), intEndAddr = Some (Num 16843009),
                    arraySubnet = None\<rparr> = Inl IPRangeAddressError"
  by code_simp

theorem C3_non_decimal_octet_accepted_witness: "isIPv4Addr ''1.2.3.x''"
  using C3_non_decimal_octet_accepted by (rule conjunct1)

theorem C2_inverted_range_overwrites_addresses_witness:
  "IPv4Range_set_iprange ''2.2.2.2-1.1.1.1''
       \<lparr>intStartAddr = Some (Num 16843009), intEndAddr = Some (Num 16843009),
        arraySubnet = Some [''1.1.1.1/32'']\<rparr> =
     Some (Throws IPRangeAddressError
            \<lparr>intStartAddr = Some (Num 33686018), intEndAddr = Some (Num 16843009),
             arraySubnet = Some [''1.1.1.1/32'']\<rparr>)"
  using C2_inverted_range_overwrites_addresses by blast

theorem C7_range_getter_after_failed_assignment_witness:
  "IPv4Range_get_iprange \<lparr>intStartAddr = Some (Num 33686018), intEndAddr = Some (Num 16843009),
                    arraySubnet = None\<rparr> = Inr ''2.2.2.2-1.1.1.1''"
  using C7_range_getter_after_failed_assignment by blast

section \<open>The claim about address text and address value\<close>

text \<open>
  Claim C5.  For both address families, parsing the formatted text of an address gives the
  address back, and formatting the parsed value of a canonical address text gives the text
  back.  The canonical IPv4 text joins four octets by dots, each written in decimal
  without leading zero and at most 255; the canonical IPv6 text joins eight groups of four
  lowercase hexadecimal digits by colons.
\<close>

theorem C5_round_trip:
  "(0 \<le> a \<and> a < 2 ^ 32 \<longrightarrow> toIPv4AddrInteger (toIPv4AddrString (Num a)) = Num a) \<and>
   (length os = 4 \<and> (\<forall>w\<in>set os. canonicalOctet w) \<longrightarrow>
      toIPv4AddrString (toIPv4AddrInteger (joinStr CHR ''.'' os)) = joinStr CHR ''.'' os) \<and>
   (0 \<le> b \<and> b < 2 ^ 128 \<longrightarrow> toIPv6AddrInteger (toIPv6AddrString b) = Inr b) \<and>
   (length gs = 8 \<and> (\<forall>g\<in>set gs. canonicalHextet g) \<longrightarrow>
      (\<exists>n. toIPv6AddrInteger (joinStr CHR '':'' gs) = Inr n \<and>
           toIPv6AddrString n = joinStr CHR '':'' gs))"
proof (intro conjI impI)
  assume "0 \<le> a \<and> a < 2 ^ 32"
  thus "toIPv4AddrInteger (toIPv4AddrString (Num a)) = Num a" by (simp add: ipv4_parse_format)
next
  assume h: "length os = 4 \<and> (\<forall>w\<in>set os. canonicalOctet w)"
  then obtain o1 o2 o3 o4 where os: "os = [o1, o2, o3, o4]" unfolding list4 by blast
  with h have c: "canonicalOctet o1" "canonicalOctet o2" "canonicalOctet o3" "canonicalOctet o4"
    by simp_all
  have j: "joinStr CHR ''.'' os = o1 @ ''.'' @ o2 @ ''.'' @ o3 @ ''.'' @ o4" unfolding os by simp
  show "toIPv4AddrString (toIPv4AddrInteger (joinStr CHR ''.'' os)) = joinStr CHR ''.'' os"
    unfolding j by (rule ipv4_format_parse[OF c])
next
  assume "0 \<le> b \<and> b < 2 ^ 128"
  thus "toIPv6AddrInteger (toIPv6AddrString b) = Inr b" by (simp add: ipv6_parse_format)
next
  assume h: "length gs = 8 \<and> (\<forall>g\<in>set gs. canonicalHextet g)"
  then obtain g0 g1 g2 g3 g4 g5 g6 g7 where gs: "gs = [g0, g1, g2, g3, g4, g5, g6, g7]"
    unfolding list8 by blast
  have "\<forall>g\<in>set gs. length g = 4 \<and> (\<forall>c\<in>set g. isLowerHex c)"
    using h isLowerHex_iff unfolding canonicalHextet_def list_all_iff by blast
  hence ok: "\<forall>g\<in>set [g0, g1, g2, g3, g4, g5, g6, g7]. length g = 4 \<and> (\<forall>c\<in>set g. isLowerHex c)"
    unfolding gs .
  show "\<exists>n. toIPv6AddrInteger (joinStr CHR '':'' gs) = Inr n \<and>
           toIPv6AddrString n = joinStr CHR '':'' gs"
    unfolding gs by (rule ipv6_format_parse[OF ok])
qed

theorem C5_round_trip_witness:
  "toIPv4AddrInteger (toIPv4AddrString (Num 3232235521)) = Num 3232235521 \<and>
   toIPv4AddrString (toIPv4AddrInteger ''192.168.0.1'') = ''192.168.0.1'' \<and>
   toIPv6AddrInteger (toIPv6AddrString 42540766411282592856903984951653826561) =
     Inr 42540766411282592856903984951653826561 \<and>
   (\<exists>n. toIPv6AddrInteger ''2001:0db8:0000:0000:0000:0000:0000:0001'' = Inr n \<and>
        toIPv6AddrString n = ''2001:0db8:0000:0000:0000:0000:0000:0001'')"
proof -
  have c4: "canonicalOctet ''192''" "canonicalOctet ''168''" "canonicalOctet ''0''"
    "canonicalOctet ''1''" by code_simp+
  have c6: "canonicalHextet ''2001''" "canonicalHextet ''0db8''" "canonicalHextet ''0000''"
    "canonicalHextet ''0001''" by code_simp+
  note inst = C5_round_trip[of 3232235521 "[''192'', ''168'', ''0'', ''1'']"
      42540766411282592856903984951653826561
      "[''2001'', ''0db8'', ''0000'', ''0000'', ''0000'', ''0000'', ''0000'', ''0001'']"]
  show ?thesis using inst c4 c6 by simp
qed

end
